theory Spec2Isabelle
  imports Complex_Main "HOL-Library.Sublist" "HOL-Library.List_Lexorder" "HOL-Library.Multiset"
begin

section \<open>Strings of the source language\<close>

text \<open>
  A JavaScript string is a sequence of UTF-16 code units; \<open>length\<close>, \<open>substring\<close>,
  \<open>includes\<close>, \<open>lastIndexOf\<close> and the regular expressions of the source (none has the
  \<open>u\<close> flag) all count code units. A string is therefore a list of code units, each a
  natural number. ASCII literals are written through \<open>ascii\<close>; the Vietnamese literals of
  the source (all in NFC there) are written as their code units.
\<close>

type_synonym jsstring = "nat list"

definition ascii :: "string \<Rightarrow> jsstring" where
  "ascii s = map of_char s"

text \<open>The class \<open>\s\<close> of a regular expression, which is also what \<open>trim\<close> removes:
  WhiteSpace and LineTerminator of ECMAScript.\<close>

definition is_space :: "nat \<Rightarrow> bool" where
  "is_space c \<longleftrightarrow>
     c = 9 \<or> c = 10 \<or> c = 11 \<or> c = 12 \<or> c = 13 \<or> c = 32 \<or> c = 160 \<or> c = 5760 \<or>
     (8192 \<le> c \<and> c \<le> 8202) \<or> c = 8232 \<or> c = 8233 \<or> c = 8239 \<or> c = 8287 \<or>
     c = 12288 \<or> c = 65279"

text \<open>The class \<open>[^\s,.]\<close>.\<close>

definition is_token :: "nat \<Rightarrow> bool" where
  "is_token c \<longleftrightarrow> \<not> is_space c \<and> c \<noteq> 44 \<and> c \<noteq> 46"

text \<open>\<open>String.prototype.includes\<close>: the pattern occurs as a contiguous block.\<close>

fun str_includes :: "jsstring \<Rightarrow> jsstring \<Rightarrow> bool" where
  "str_includes [] p = (p = [])"
| "str_includes (c # cs) p = (prefix p (c # cs) \<or> str_includes cs p)"

text \<open>\<open>String.prototype.trim\<close>.\<close>

definition trim :: "jsstring \<Rightarrow> jsstring" where
  "trim s = rev (dropWhile is_space (rev (dropWhile is_space s)))"

subsection \<open>The regular expressions of the source\<close>

text \<open>
  The regular expressions used by the modelled functions are sequences of literals,
  greedy repetitions of a character class and the end anchor. \<open>match_here\<close> is the
  backtracking matcher at one start position: it returns the length of the match the
  engine finds first (greedy repetitions try the longest run first and give back one code
  unit at a time).
\<close>

datatype atom = Lit jsstring | Plus "nat \<Rightarrow> bool" | Star "nat \<Rightarrow> bool" | Eos

fun first_some :: "'a option list \<Rightarrow> 'a option" where
  "first_some [] = None"
| "first_some (None # xs) = first_some xs"
| "first_some (Some x # xs) = Some x"

fun match_here :: "atom list \<Rightarrow> jsstring \<Rightarrow> nat option" where
  "match_here [] s = Some 0"
| "match_here (Lit l # r) s =
     (if prefix l s then map_option (\<lambda>k. length l + k) (match_here r (drop (length l) s))
      else None)"
| "match_here (Plus c # r) s =
     first_some (map (\<lambda>k. map_option (\<lambda>j. k + j) (match_here r (drop k s)))
       (rev [1 ..< Suc (length (takeWhile c s))]))"
| "match_here (Star c # r) s =
     first_some (map (\<lambda>k. map_option (\<lambda>j. k + j) (match_here r (drop k s)))
       (rev [0 ..< Suc (length (takeWhile c s))]))"
| "match_here (Eos # r) s = (if s = [] then match_here r s else None)"

text \<open>
  \<open>s.replace(re, r)\<close> for a regular expression with the \<open>g\<close> flag and a replacement
  without \<open>$\<close>: the string is scanned from the left, every match is replaced and the
  scan resumes behind it (one code unit further after an empty match).
\<close>

fun replace_all :: "atom list \<Rightarrow> jsstring \<Rightarrow> jsstring \<Rightarrow> jsstring" where
  "replace_all p r [] = (case match_here p [] of None \<Rightarrow> [] | Some _ \<Rightarrow> r)"
| "replace_all p r (c # cs) =
     (case match_here p (c # cs) of
        None \<Rightarrow> c # replace_all p r cs
      | Some 0 \<Rightarrow> r @ c # replace_all p r cs
      | Some (Suc k) \<Rightarrow> r @ replace_all p r (drop k cs))"

text \<open>The same without the \<open>g\<close> flag: only the leftmost match is replaced.\<close>

fun replace_first :: "atom list \<Rightarrow> jsstring \<Rightarrow> jsstring \<Rightarrow> jsstring" where
  "replace_first p r [] = (case match_here p [] of None \<Rightarrow> [] | Some _ \<Rightarrow> r)"
| "replace_first p r (c # cs) =
     (case match_here p (c # cs) of
        None \<Rightarrow> c # replace_first p r cs
      | Some k \<Rightarrow> r @ drop k (c # cs))"

section \<open>Decoded model responses\<close>

text \<open>
  The value \<open>JSON.parse\<close> returns. The number type is a parameter: the only operation the
  modelled code applies to a number is \<open>toString\<close>, which the functions below take as
  the argument \<open>toStr\<close>. An object is the list of its properties, each key once;
  \<open>get_prop\<close> reads one
  (\<open>None\<close> is \<open>undefined\<close>, which is also what the \<open>in\<close> operator tests for the
  values \<open>JSON.parse\<close> builds, as it never stores \<open>undefined\<close>).
\<close>

datatype 'n json =
    JNull
  | JBool bool
  | JNum 'n
  | JStr jsstring
  | JArr "'n json list"
  | JObj "(jsstring \<times> 'n json) list"

text \<open>\<open>Number.prototype.toString\<close> on the non-negative integers below \<open>10\<^sup>2\<^sup>1\<close>, where
  it prints the decimal digits: the instance of \<open>toStr\<close> used in the examples.\<close>

fun dec_string :: "nat \<Rightarrow> jsstring" where
  "dec_string n = (if n < 10 then [48 + n] else dec_string (n div 10) @ [48 + n mod 10])"

declare dec_string.simps [simp del]

fun get_prop :: "'n json \<Rightarrow> jsstring \<Rightarrow> 'n json option" where
  "get_prop (JObj kv) k = map_of kv k"
| "get_prop _ k = None"

text \<open>\<open>x ?? d\<close> on the result of a read.\<close>

fun nullish_or :: "'n json option \<Rightarrow> 'n json \<Rightarrow> 'n json" where
  "nullish_or None d = d"
| "nullish_or (Some JNull) d = d"
| "nullish_or (Some v) d = v"

text \<open>\<open>xs[0]\<close>.\<close>

fun first_elem :: "'a list \<Rightarrow> 'a option" where
  "first_elem [] = None"
| "first_elem (x # _) = Some x"

datatype QuestionType = MULTIPLE_CHOICE | TRUE_FALSE | MULTIPLE_RESPONSE | MATCHING | COMPLETION

record choice =
  label :: jsstring
  content :: jsstring

text \<open>
  \<open>GeneratedQuestion\<close> of the source. Its field \<open>type\<close> is \<open>qtype\<close> here. The source
  declares \<open>correctAnswers: string[]\<close> and \<open>explanation?: string\<close> but stores what the
  response held, unchecked, so both carry decoded values.
\<close>

record 'n GeneratedQuestion =
  question :: jsstring
  choices :: "choice list"
  correctAnswers :: "'n json list"
  explanation :: "'n json"
  qtype :: QuestionType

datatype error =
    InvalidQuestionStructure nat
  | InvalidChoiceStructure nat
  | GenerationFailed

section \<open>Structural checks of the parser\<close>

definition isValidQuestionStructure :: "'n json \<Rightarrow> bool" where
  "isValidQuestionStructure q =
     (case q of
        JObj kv \<Rightarrow>
          (case (get_prop q (ascii ''question''), get_prop q (ascii ''choices''),
                 get_prop q (ascii ''correctAnswers'')) of
             (Some (JStr _), Some (JArr _), Some _) \<Rightarrow> True
           | _ \<Rightarrow> False)
      | _ \<Rightarrow> False)"

text \<open>The two conditional expressions of \<open>validateChoices\<close> that build \<open>label\<close> and
  \<open>content\<close>.\<close>

fun choice_field :: "('n \<Rightarrow> jsstring) \<Rightarrow> 'n json \<Rightarrow> jsstring" where
  "choice_field toStr (JStr s) = s"
| "choice_field toStr (JNum n) = toStr n"
| "choice_field toStr _ = []"

definition validateChoice :: "('n \<Rightarrow> jsstring) \<Rightarrow> 'n json \<Rightarrow> choice option" where
  "validateChoice toStr c =
     (case (get_prop c (ascii ''label''), get_prop c (ascii ''content'')) of
        (Some l, Some t) \<Rightarrow>
          Some \<lparr>label = choice_field toStr l, content = choice_field toStr t\<rparr>
      | _ \<Rightarrow> None)"

fun validateChoices_from ::
  "('n \<Rightarrow> jsstring) \<Rightarrow> nat \<Rightarrow> 'n json list \<Rightarrow> error + choice list" where
  "validateChoices_from toStr i [] = Inr []"
| "validateChoices_from toStr i (c # cs) =
     (case validateChoice toStr c of
        None \<Rightarrow> Inl (InvalidChoiceStructure i)
      | Some ch \<Rightarrow>
          (case validateChoices_from toStr (Suc i) cs of
             Inl e \<Rightarrow> Inl e
           | Inr r \<Rightarrow> Inr (ch # r)))"

definition validateChoices :: "('n \<Rightarrow> jsstring) \<Rightarrow> 'n json list \<Rightarrow> error + choice list" where
  "validateChoices toStr cs = validateChoices_from toStr 0 cs"

section \<open>The normalizer\<close>

definition marker :: jsstring where
  "marker = ascii ''_____''"

text \<open>The literals of the four substitution patterns of the source (written without
  diacritics: "la X", "bang X", "co X", "duoc goi la X"), as the code units of the NFC
  literals that stand there.\<close>

definition s_la :: jsstring where "s_la = [108, 224]"
definition s_bang :: jsstring where "s_bang = [98, 7857, 110, 103]"
definition s_co :: jsstring where "s_co = [99, 243]"
definition s_duoc :: jsstring where "s_duoc = [273, 432, 7907, 99]"
definition s_goi :: jsstring where "s_goi = [103, 7885, 105]"

definition pat_la :: "atom list" where
  "pat_la = [Lit s_la, Plus is_space, Plus is_token]"
definition pat_bang :: "atom list" where
  "pat_bang = [Lit s_bang, Plus is_space, Plus is_token]"
definition pat_co :: "atom list" where
  "pat_co = [Lit s_co, Plus is_space, Plus is_token]"
definition pat_duoc_goi_la :: "atom list" where
  "pat_duoc_goi_la =
     [Lit s_duoc, Plus is_space, Lit s_goi, Plus is_space, Lit s_la, Plus is_space,
      Plus is_token]"
definition pat_qmark_end :: "atom list" where
  "pat_qmark_end = [Lit (ascii ''?''), Eos]"

text \<open>The end of both auto-fixes: when no pattern matched, the blank goes before a final
  question mark, else to the end.\<close>

definition add_blank_at_end :: "jsstring \<Rightarrow> jsstring" where
  "add_blank_at_end fixed =
     (if \<not> str_includes fixed marker then
        (let fixed' = replace_first pat_qmark_end (ascii '' _____?'') fixed
         in if \<not> str_includes fixed' marker then fixed' @ ascii '' _____'' else fixed')
      else fixed)"

text \<open>The auto-fix of a \<open>COMPLETION\<close> question without blank marker in
  \<open>validateAndFormatQuestions\<close>.\<close>

definition fixCompletion :: "jsstring \<Rightarrow> jsstring" where
  "fixCompletion q =
     (let f1 = replace_all pat_la (s_la @ 32 # marker) q;
          f2 = replace_all pat_bang (s_bang @ 32 # marker) f1;
          f3 = replace_all pat_co (s_co @ 32 # marker) f2;
          f4 = replace_all pat_duoc_goi_la (s_duoc @ 32 # s_goi @ 32 # s_la @ 32 # marker) f3
      in add_blank_at_end f4)"

definition abcd :: "jsstring list" where
  "abcd = [ascii ''A'', ascii ''B'', ascii ''C'', ascii ''D'']"

text \<open>The \<open>MULTIPLE_RESPONSE\<close> branch on the answers.\<close>

definition fixMultipleResponse :: "'n json list \<Rightarrow> 'n json list" where
  "fixMultipleResponse fca =
     (let fca1 =
        (if length fca < 2 then
           (let pushed =
              (if length fca = 1 then
                 (case filter (\<lambda>l. JStr l \<notin> set fca) abcd of
                    [] \<Rightarrow> fca
                  | l # _ \<Rightarrow> fca @ [JStr l])
               else fca)
            in if length pushed < 2 then [JStr (ascii ''A''), JStr (ascii ''B'')] else pushed)
         else fca)
      in if length fca1 > 3 then take 3 fca1 else fca1)"

text \<open>\<open>formattedCorrectAnswers\<close> before the switch: the array itself, or the single
  value wrapped.\<close>

fun answer_array :: "'n json \<Rightarrow> 'n json list" where
  "answer_array (JArr xs) = xs"
| "answer_array v = [v]"

text \<open>The \<open>switch (questionType)\<close> and the object that the callback returns.\<close>

fun format_by_type ::
  "QuestionType \<Rightarrow> jsstring \<Rightarrow> choice list \<Rightarrow> 'n json list \<Rightarrow> 'n json
     \<Rightarrow> 'n GeneratedQuestion" where
  "format_by_type TRUE_FALSE qtext formattedChoices fca expl =
     \<lparr>question = qtext,
      choices =
        [\<lparr>label = ascii ''True'', content = [272, 250, 110, 103]\<rparr>,
         \<lparr>label = ascii ''False'', content = ascii ''Sai''\<rparr>],
      correctAnswers =
        (if nullish_or (first_elem fca) (JStr [])
              \<notin> set [JStr (ascii ''True''), JStr (ascii ''False'')]
         then [JStr (ascii ''True'')] else fca),
      explanation = expl, qtype = TRUE_FALSE\<rparr>"
| "format_by_type MULTIPLE_CHOICE qtext formattedChoices fca expl =
     \<lparr>question = qtext, choices = formattedChoices,
      correctAnswers = [nullish_or (first_elem fca) (JStr (ascii ''A''))],
      explanation = expl, qtype = MULTIPLE_CHOICE\<rparr>"
| "format_by_type MULTIPLE_RESPONSE qtext formattedChoices fca expl =
     \<lparr>question = qtext, choices = formattedChoices,
      correctAnswers = fixMultipleResponse fca,
      explanation = expl, qtype = MULTIPLE_RESPONSE\<rparr>"
| "format_by_type MATCHING qtext formattedChoices fca expl =
     \<lparr>question = qtext, choices = formattedChoices,
      correctAnswers = map (\<lambda>c. JStr (label c)) formattedChoices,
      explanation = expl, qtype = MATCHING\<rparr>"
| "format_by_type COMPLETION qtext formattedChoices fca expl =
     \<lparr>question = (if \<not> str_includes qtext marker then fixCompletion qtext else qtext),
      choices = formattedChoices,
      correctAnswers = [nullish_or (first_elem fca) (JStr (ascii ''A''))],
      explanation = expl, qtype = COMPLETION\<rparr>"

text \<open>The callback of \<open>questions.map\<close> in \<open>validateAndFormatQuestions\<close>: the two
  structural checks, each of which throws, then the switch.\<close>

definition formatQuestion ::
  "('n \<Rightarrow> jsstring) \<Rightarrow> QuestionType \<Rightarrow> nat \<Rightarrow> 'n json \<Rightarrow> error + 'n GeneratedQuestion" where
  "formatQuestion toStr questionType index q =
     (if \<not> isValidQuestionStructure q then Inl (InvalidQuestionStructure index)
      else
        (case (get_prop q (ascii ''question''), get_prop q (ascii ''choices''),
               get_prop q (ascii ''correctAnswers'')) of
           (Some (JStr qtext), Some (JArr cs), Some ca) \<Rightarrow>
             (case validateChoices toStr cs of
                Inl e \<Rightarrow> Inl e
              | Inr formattedChoices \<Rightarrow>
                  Inr (format_by_type questionType qtext formattedChoices (answer_array ca)
                         (nullish_or (get_prop q (ascii ''explanation'')) (JStr []))))
         | _ \<Rightarrow> Inl (InvalidQuestionStructure index)))"

fun validateAndFormatQuestions_from ::
  "('n \<Rightarrow> jsstring) \<Rightarrow> QuestionType \<Rightarrow> nat \<Rightarrow> 'n json list
     \<Rightarrow> error + 'n GeneratedQuestion list" where
  "validateAndFormatQuestions_from toStr ty i [] = Inr []"
| "validateAndFormatQuestions_from toStr ty i (q # qs) =
     (case formatQuestion toStr ty i q of
        Inl e \<Rightarrow> Inl e
      | Inr g \<Rightarrow>
          (case validateAndFormatQuestions_from toStr ty (Suc i) qs of
             Inl e \<Rightarrow> Inl e
           | Inr gs \<Rightarrow> Inr (g # gs)))"

definition validateAndFormatQuestions ::
  "('n \<Rightarrow> jsstring) \<Rightarrow> 'n json list \<Rightarrow> QuestionType \<Rightarrow> error + 'n GeneratedQuestion list" where
  "validateAndFormatQuestions toStr questions questionType =
     validateAndFormatQuestions_from toStr questionType 0 questions"

section \<open>Example inputs\<close>

text \<open>Decoded questions with integer numbers, for the concrete instances below.\<close>

definition raw_question :: "jsstring \<Rightarrow> nat json list \<Rightarrow> nat json \<Rightarrow> nat json" where
  "raw_question q cs ca =
     JObj [(ascii ''question'', JStr q), (ascii ''choices'', JArr cs),
           (ascii ''correctAnswers'', ca)]"

definition raw_choice :: "nat json \<Rightarrow> nat json \<Rightarrow> nat json" where
  "raw_choice l c = JObj [(ascii ''label'', l), (ascii ''content'', c)]"

definition choices_abcd :: "nat json list" where
  "choices_abcd =
     [raw_choice (JStr (ascii ''A'')) (JStr (ascii ''a'')),
      raw_choice (JStr (ascii ''B'')) (JStr (ascii ''b'')),
      raw_choice (JStr (ascii ''C'')) (JStr (ascii ''c'')),
      raw_choice (JStr (ascii ''D'')) (JStr (ascii ''d''))]"

section \<open>Predicates of the properties\<close>

text \<open>The invariant of a normalized question: every correct answer is (the string of) a
  label of one of its choices.\<close>

definition answers_among_labels :: "'n GeneratedQuestion \<Rightarrow> bool" where
  "answers_among_labels g \<longleftrightarrow> set (correctAnswers g) \<subseteq> JStr ` label ` set (choices g)"

text \<open>The number of positions at which a pattern occurs in a string.\<close>

fun count_occurrences :: "jsstring \<Rightarrow> jsstring \<Rightarrow> nat" where
  "count_occurrences [] p = (if p = [] then 1 else 0)"
| "count_occurrences (c # cs) p =
     (if prefix p (c # cs) then 1 else 0) + count_occurrences cs p"

text \<open>Whether a regular expression matches somewhere in a string.\<close>

fun has_match :: "atom list \<Rightarrow> jsstring \<Rightarrow> bool" where
  "has_match p [] = (match_here p [] \<noteq> None)"
| "has_match p (c # cs) = (match_here p (c # cs) \<noteq> None \<or> has_match p cs)"

text \<open>
  The repair of a \<open>COMPLETION\<close> text as the specification words it, for comparison with
  \<open>fixCompletion\<close>: the patterns are tried in their order, the first one that matches
  wins, and only its first match is replaced.
\<close>

definition repair_first_match_only :: "jsstring \<Rightarrow> jsstring" where
  "repair_first_match_only q =
     (if has_match pat_la q then replace_first pat_la (s_la @ 32 # marker) q
      else if has_match pat_bang q then replace_first pat_bang (s_bang @ 32 # marker) q
      else if has_match pat_co q then replace_first pat_co (s_co @ 32 # marker) q
      else if has_match pat_duoc_goi_la q then
        replace_first pat_duoc_goi_la (s_duoc @ 32 # s_goi @ 32 # s_la @ 32 # marker) q
      else add_blank_at_end q)"

text \<open>The text \<open>Thu do cua Viet Nam la Ha Noi.\<close> (with its diacritics) of the
  specification's example, the same with \<open>Ha\<close> replaced by the marker, and a text
  \<open>X la Y co Z\<close> that two patterns match.\<close>

definition example_text :: jsstring where
  "example_text =
     [84, 104, 7911, 32, 273, 244, 32, 99, 7911, 97, 32, 86, 105, 7879, 116, 32, 78, 97, 109,
      32, 108, 224, 32, 72, 224, 32, 78, 7897, 105, 46]"

definition example_fixed :: jsstring where
  "example_fixed =
     [84, 104, 7911, 32, 273, 244, 32, 99, 7911, 97, 32, 86, 105, 7879, 116, 32, 78, 97, 109,
      32, 108, 224, 32, 95, 95, 95, 95, 95, 32, 78, 7897, 105, 46]"

definition two_pattern_text :: jsstring where
  "two_pattern_text = [88, 32, 108, 224, 32, 89, 32, 99, 243, 32, 90]"

section \<open>The multi-type aggregator\<close>

text \<open>
  \<open>GenerateQuestionsRequest\<close> and \<open>GenerateMultipleQuestionsDto\<close> of the source. The
  fields carry a prefix, as the two records share their names with each other and with
  \<open>choice\<close>.
\<close>

record GenerateQuestionsRequest =
  req_content :: jsstring
  req_subject :: jsstring
  req_questionCount :: nat
  req_questionType :: QuestionType
  req_tone :: "jsstring option"
  req_difficulty :: "jsstring option"

record GenerateMultipleQuestionsDto =
  dto_subject :: jsstring
  dto_questionCount :: nat
  dto_questionTypes :: "QuestionType list"
  dto_tone :: "jsstring option"
  dto_difficulty :: "jsstring option"
  dto_title :: "jsstring option"

text \<open>
  The generative model is outside the program. A backend stands for the part of
  \<open>generateQuestions\<close> from \<open>buildPrompt\<close> to \<open>JSON.parse\<close>: given the state of the
  world and a request it returns the array \<open>parsedResponse.questions\<close>, or \<open>None\<close> when
  the call, the extraction or the decoding throws (or \<open>questions\<close> is no array, where
  \<open>map\<close> throws), and the next state of the world. Two calls with the same request may
  so differ.
\<close>

type_synonym ('w, 'n) backend =
  "'w \<Rightarrow> GenerateQuestionsRequest \<Rightarrow> 'n json list option \<times> 'w"

text \<open>\<open>generateQuestions\<close> of the model service: every exception is caught and replaced by
  the one error \<open>Failed to generate questions\<close>.\<close>

definition generateQuestions ::
  "('w, 'n) backend \<Rightarrow> ('n \<Rightarrow> jsstring) \<Rightarrow> 'w \<Rightarrow> GenerateQuestionsRequest
     \<Rightarrow> (error + 'n GeneratedQuestion list) \<times> 'w" where
  "generateQuestions backend toStr w request =
     (case backend w request of
        (None, w') \<Rightarrow> (Inl GenerationFailed, w')
      | (Some questions, w') \<Rightarrow>
          (case validateAndFormatQuestions toStr questions (req_questionType request) of
             Inl e \<Rightarrow> (Inl GenerationFailed, w')
           | Inr formatted \<Rightarrow> (Inr formatted, w')))"

text \<open>
  \<open>Math.ceil(questionCount / questionTypes.length)\<close>, with the exact quotient in place of
  the floating-point one: the two agree on the validated range of \<open>questionCount\<close>
  (1 to 50), where a quotient that is no integer is further from every integer than the
  rounding error. (Without a type the source divides by zero and the loop below does not run.)
\<close>

definition questionsPerType :: "nat \<Rightarrow> nat \<Rightarrow> nat" where
  "questionsPerType questionCount n = nat \<lceil>(of_nat questionCount :: rat) / of_nat n\<rceil>"

text \<open>The loop over \<open>questionTypes\<close>: one call per entry, its result appended to
  \<open>allGeneratedQuestions\<close>; a failing call ends the loop with its error.\<close>

fun generate_each ::
  "('w, 'n) backend \<Rightarrow> ('n \<Rightarrow> jsstring) \<Rightarrow> GenerateMultipleQuestionsDto \<Rightarrow> jsstring \<Rightarrow> nat
     \<Rightarrow> QuestionType list \<Rightarrow> 'n GeneratedQuestion list \<Rightarrow> 'w
     \<Rightarrow> (error + 'n GeneratedQuestion list) \<times> 'w" where
  "generate_each backend toStr dto text perType [] allGeneratedQuestions w =
     (Inr allGeneratedQuestions, w)"
| "generate_each backend toStr dto text perType (questionType # rest) allGeneratedQuestions w =
     (case generateQuestions backend toStr w
             \<lparr>req_content = text, req_subject = dto_subject dto,
              req_questionCount = perType, req_questionType = questionType,
              req_tone = dto_tone dto, req_difficulty = dto_difficulty dto\<rparr> of
        (Inl e, w') \<Rightarrow> (Inl e, w')
      | (Inr generatedQuestions, w') \<Rightarrow>
          generate_each backend toStr dto text perType rest
            (allGeneratedQuestions @ generatedQuestions) w')"

text \<open>The \<open>while\<close> loop of the second repair pass: labels are pushed while fewer than two
  answers are there.\<close>

fun push_available :: "'n json list \<Rightarrow> jsstring list \<Rightarrow> 'n json list" where
  "push_available ca [] = ca"
| "push_available ca (l # ls) =
     (if length ca < 2 then push_available (ca @ [JStr l]) ls else ca)"

text \<open>The callback of \<open>allGeneratedQuestions.map\<close>: the aggregator's own repair of
  \<open>MULTIPLE_RESPONSE\<close> answers and \<open>COMPLETION\<close> texts (with three of the patterns).\<close>

definition revalidate :: "'n GeneratedQuestion \<Rightarrow> 'n GeneratedQuestion" where
  "revalidate q =
     (let q1 =
        (if qtype q = MULTIPLE_RESPONSE \<and> length (correctAnswers q) < 2 then
           (let ca = push_available (correctAnswers q)
                       (filter (\<lambda>l. JStr l \<notin> set (correctAnswers q)) abcd)
            in q\<lparr>correctAnswers :=
                   (if length ca < 2 then [JStr (ascii ''A''), JStr (ascii ''B'')] else ca)\<rparr>)
         else q)
      in if qtype q1 = COMPLETION \<and> \<not> str_includes (question q1) marker then
           q1\<lparr>question :=
                add_blank_at_end
                  (replace_all pat_co (s_co @ 32 # marker)
                    (replace_all pat_bang (s_bang @ 32 # marker)
                      (replace_all pat_la (s_la @ 32 # marker) (question q1))))\<rparr>
         else q1)"

text \<open>\<open>generateMultipleQuestions\<close> from the computed text on, up to \<open>finalQuestions\<close>,
  the list handed to the storage.\<close>

definition generateMultipleQuestions ::
  "('w, 'n) backend \<Rightarrow> ('n \<Rightarrow> jsstring) \<Rightarrow> GenerateMultipleQuestionsDto \<Rightarrow> jsstring \<Rightarrow> 'w
     \<Rightarrow> (error + 'n GeneratedQuestion list) \<times> 'w" where
  "generateMultipleQuestions backend toStr dto text w =
     (case generate_each backend toStr dto text
             (questionsPerType (dto_questionCount dto) (length (dto_questionTypes dto)))
             (dto_questionTypes dto) [] w of
        (Inl e, w') \<Rightarrow> (Inl e, w')
      | (Inr allGeneratedQuestions, w') \<Rightarrow>
          (Inr (take (dto_questionCount dto) (map revalidate allGeneratedQuestions)), w'))"

text \<open>
  The single-type pipeline run on a list of requests, one after the other, with the list
  of its results: what the aggregator is compared with.
\<close>

fun run_requests ::
  "('w, 'n) backend \<Rightarrow> ('n \<Rightarrow> jsstring) \<Rightarrow> GenerateQuestionsRequest list \<Rightarrow> 'w
     \<Rightarrow> (error + 'n GeneratedQuestion list list) \<times> 'w" where
  "run_requests backend toStr [] w = (Inr [], w)"
| "run_requests backend toStr (r # rs) w =
     (case generateQuestions backend toStr w r of
        (Inl e, w') \<Rightarrow> (Inl e, w')
      | (Inr out, w') \<Rightarrow>
          (case run_requests backend toStr rs w' of
             (Inl e, w'') \<Rightarrow> (Inl e, w'')
           | (Inr outs, w'') \<Rightarrow> (Inr (out # outs), w'')))"

text \<open>
  An example backend, whose world is the number of calls made: it answers every request
  with the same two questions, whatever the number asked for. And a request for two
  questions of two types.
\<close>

definition example_backend :: "(nat, nat) backend" where
  "example_backend w request =
     (Some [raw_question (ascii ''Q?'') choices_abcd (JArr [JStr (ascii ''C'')]),
            raw_question (ascii ''R'') choices_abcd (JStr (ascii ''A''))],
      Suc w)"

definition example_dto :: GenerateMultipleQuestionsDto where
  "example_dto =
     \<lparr>dto_subject = ascii ''s'', dto_questionCount = 2,
      dto_questionTypes = [MULTIPLE_RESPONSE, COMPLETION],
      dto_tone = None, dto_difficulty = None, dto_title = None\<rparr>"

definition example_choices :: "choice list" where
  "example_choices =
     [\<lparr>label = ascii ''A'', content = ascii ''a''\<rparr>,
      \<lparr>label = ascii ''B'', content = ascii ''b''\<rparr>,
      \<lparr>label = ascii ''C'', content = ascii ''c''\<rparr>,
      \<lparr>label = ascii ''D'', content = ascii ''d''\<rparr>]"

section \<open>The text normalizer\<close>

text \<open>\<open>String.prototype.lastIndexOf\<close> without a start index: the greatest position at
  which the pattern begins, or \<open>-1\<close>. The search runs downwards from the end.\<close>

fun lastIndexOf_from :: "jsstring \<Rightarrow> jsstring \<Rightarrow> nat \<Rightarrow> int" where
  "lastIndexOf_from s p 0 = - 1"
| "lastIndexOf_from s p (Suc k) =
     (if prefix p (drop k s) then int k else lastIndexOf_from s p k)"

definition lastIndexOf :: "jsstring \<Rightarrow> jsstring \<Rightarrow> int" where
  "lastIndexOf s p = lastIndexOf_from s p (Suc (length s))"

definition MAX_CHARS :: nat where
  "MAX_CHARS = 10000"

definition sentenceEndings :: "jsstring list" where
  "sentenceEndings = [[46, 32], [46, 10], [33, 32], [33, 10], [63, 32], [63, 10]]"

definition paragraphBreaks :: "jsstring list" where
  "paragraphBreaks = [[10, 10], [10, 32]]"

text \<open>The two \<open>for\<close> loops of \<open>truncateText\<close>: the greatest \<open>lastIndexOf\<close> over a list
  of patterns, starting from \<open>-1\<close>.\<close>

definition last_index_among :: "jsstring \<Rightarrow> jsstring list \<Rightarrow> int" where
  "last_index_among searchText patterns =
     fold (\<lambda>pattern last.
             (let index = lastIndexOf searchText pattern
              in if index > last then index else last))
       patterns (- 1)"

text \<open>
  \<open>truncateText\<close>; the pair is the object \<open>{ text, wasTruncated }\<close>. The source computes
  the start of the search window as \<open>MAX_CHARS - Math.floor(MAX_CHARS * 0.2)\<close>, and
  \<open>Math.floor(10000 * 0.2)\<close> is 2000.
\<close>

definition truncateText :: "jsstring \<Rightarrow> jsstring \<times> bool" where
  "truncateText text =
     (if length text \<le> MAX_CHARS then (text, False)
      else
        (let truncated = take MAX_CHARS text;
             searchStart = max 0 (MAX_CHARS - 2000);
             searchText = drop searchStart truncated;
             lastSentenceEnd = last_index_among searchText sentenceEndings;
             truncated1 =
               (if lastSentenceEnd > - 1
                then take (searchStart + nat lastSentenceEnd + 1) truncated
                else truncated);
             truncated2 =
               (if lastSentenceEnd = - 1 then
                  (let lastParagraphEnd = last_index_among searchText paragraphBreaks
                   in if lastParagraphEnd > - 1
                      then take (searchStart + nat lastParagraphEnd) truncated1
                      else truncated1)
                else truncated1)
         in (trim truncated2, True)))"

text \<open>The first statement of \<open>sanitizeText\<close>: \<open>/\s+/g\<close> to a space, then
  \<open>/\n\s*\n/g\<close> to a line break, then \<open>trim\<close>.\<close>

definition normalize_whitespace :: "jsstring \<Rightarrow> jsstring" where
  "normalize_whitespace text =
     trim (replace_all [Lit [10], Star is_space, Lit [10]] [10]
             (replace_all [Plus is_space] [32] text))"

text \<open>The result of \<open>sanitizeText\<close>; its field \<open>text\<close> is \<open>out_text\<close> here.\<close>

record TruncationOutcome =
  out_text :: jsstring
  wasTruncated :: bool
  originalLength :: nat
  truncatedLength :: nat

definition sanitizeText :: "jsstring \<Rightarrow> TruncationOutcome" where
  "sanitizeText text =
     (let sanitized = normalize_whitespace text;
          originalLength = length sanitized;
          result = truncateText sanitized
      in \<lparr>out_text = fst result, wasTruncated = snd result,
          originalLength = originalLength, truncatedLength = length (fst result)\<rparr>)"


section \<open>Practice scoring\<close>

text \<open>
  \<open>JSON.stringify\<close> on an array of strings (ECMAScript 2019 and later, as in every Node
  release that runs the program). A string is quoted code point by code point: the seven
  characters with a short escape, then the other control characters and the unpaired
  surrogates as \<open>\uXXXX\<close> with lower-case digits, and everything else unchanged.
\<close>

definition hex_digit :: "nat \<Rightarrow> nat" where
  "hex_digit d = (if d < 10 then 48 + d else 87 + d)"

definition hex4 :: "nat \<Rightarrow> jsstring" where
  "hex4 c =
     [hex_digit (c div 4096 mod 16), hex_digit (c div 256 mod 16), hex_digit (c div 16 mod 16),
      hex_digit (c mod 16)]"

definition is_lead_surrogate :: "nat \<Rightarrow> bool" where
  "is_lead_surrogate c \<longleftrightarrow> 55296 \<le> c \<and> c \<le> 56319"

definition is_trail_surrogate :: "nat \<Rightarrow> bool" where
  "is_trail_surrogate c \<longleftrightarrow> 56320 \<le> c \<and> c \<le> 57343"

definition json_escape :: "nat \<Rightarrow> jsstring" where
  "json_escape c =
     (if c = 8 then [92, 98]
      else if c = 9 then [92, 116]
      else if c = 10 then [92, 110]
      else if c = 12 then [92, 102]
      else if c = 13 then [92, 114]
      else if c = 34 then [92, 34]
      else if c = 92 then [92, 92]
      else if c < 32 \<or> is_lead_surrogate c \<or> is_trail_surrogate c then 92 # 117 # hex4 c
      else [c])"

fun json_quote_units :: "jsstring \<Rightarrow> jsstring" where
  "json_quote_units [] = []"
| "json_quote_units [c] = json_escape c"
| "json_quote_units (c # d # cs) =
     (if is_lead_surrogate c \<and> is_trail_surrogate d then c # d # json_quote_units cs
      else json_escape c @ json_quote_units (d # cs))"

definition json_quote :: "jsstring \<Rightarrow> jsstring" where
  "json_quote s = 34 # json_quote_units s @ [34]"

fun json_elements :: "jsstring list \<Rightarrow> jsstring" where
  "json_elements [] = []"
| "json_elements [x] = json_quote x"
| "json_elements (x # y # xs) = json_quote x @ 44 # json_elements (y # xs)"

definition JSON_stringify :: "jsstring list \<Rightarrow> jsstring" where
  "JSON_stringify xs = 91 # json_elements xs @ [93]"

text \<open>
  The comparison of \<open>submitAnswer\<close>. \<open>Array.prototype.sort\<close> without a comparator
  orders strings by their code units, which is the lexicographic order of the lists; the
  sorted array of a list of strings is \<open>sort\<close> of the list.
\<close>

definition isCorrect :: "jsstring list \<Rightarrow> jsstring list \<Rightarrow> bool" where
  "isCorrect choiceLabels selectedChoices =
     (let correctAnswerLabels = sort choiceLabels;
          selectedLabels = sort selectedChoices
      in JSON_stringify correctAnswerLabels = JSON_stringify selectedLabels)"

section \<open>Properties of the normalizer\<close>

lemmas eval_defs =
  formatQuestion_def isValidQuestionStructure_def validateChoices_def validateChoice_def
  raw_question_def raw_choice_def choices_abcd_def ascii_def fixMultipleResponse_def abcd_def

lemma formatQuestion_Inr:
  assumes "formatQuestion toStr ty i q = Inr g"
  obtains qtext cs ca fc where
    "get_prop q (ascii ''question'') = Some (JStr qtext)"
    "get_prop q (ascii ''choices'') = Some (JArr cs)"
    "get_prop q (ascii ''correctAnswers'') = Some ca"
    "validateChoices toStr cs = Inr fc"
    "g = format_by_type ty qtext fc (answer_array ca)
           (nullish_or (get_prop q (ascii ''explanation'')) (JStr []))"
  using assms unfolding formatQuestion_def
  by (auto split: if_splits option.splits json.splits sum.splits)

lemma length_fixMultipleResponse:
  "2 \<le> length (fixMultipleResponse fca) \<and> length (fixMultipleResponse fca) \<le> 3"
  unfolding fixMultipleResponse_def Let_def
  by (auto split: list.splits)

lemma fixMultipleResponse_empty:
  "fixMultipleResponse [] = [JStr (ascii ''A''), JStr (ascii ''B'')]"
  by (simp add: fixMultipleResponse_def)

lemma fixMultipleResponse_single:
  "\<exists>l. fixMultipleResponse [x] = [x, JStr l] \<and> l \<in> set abcd \<and> JStr l \<noteq> x \<and>
       (\<forall>l' \<in> set abcd. JStr l' \<noteq> x \<longrightarrow> l \<le> l')"
proof (cases "x = JStr (ascii ''A'')")
  case True
  then have "fixMultipleResponse [x] = [x, JStr (ascii ''B'')]"
    by (simp add: fixMultipleResponse_def abcd_def ascii_def)
  with True show ?thesis
    by (auto simp: abcd_def ascii_def)
next
  case False
  then have "fixMultipleResponse [x] = [x, JStr (ascii ''A'')]"
    by (simp add: fixMultipleResponse_def abcd_def ascii_def)
  with False show ?thesis
    by (auto simp: abcd_def ascii_def)
qed

lemma fixMultipleResponse_many:
  "3 < length fca \<Longrightarrow> fixMultipleResponse fca = take 3 fca"
  by (simp add: fixMultipleResponse_def)

lemma fixMultipleResponse_keep:
  "2 \<le> length fca \<Longrightarrow> length fca \<le> 3 \<Longrightarrow> fixMultipleResponse fca = fca"
  by (simp add: fixMultipleResponse_def)

text \<open>
  C6. A \<open>MULTIPLE_RESPONSE\<close> question leaves the normalizer with two or three correct
  answers, determined by the \<open>correctAnswers\<close> value of the response. For the empty array
  they are \<open>A\<close>, \<open>B\<close>. A single supplied answer (an array of one element, or a value
  that is no array) comes first and is followed by the least label of \<open>A\<close>, \<open>B\<close>, \<open>C\<close>,
  \<open>D\<close> that differs from it, which is \<open>B\<close> after \<open>A\<close> and \<open>A\<close> after anything else.
  Of an array of more than three answers the first three are kept, in their order; an
  array of two or three answers is kept as it is.
\<close>

theorem multiple_response_answers:
  assumes "formatQuestion toStr MULTIPLE_RESPONSE i q = Inr g"
    and "get_prop q (ascii ''correctAnswers'') = Some ca"
  shows "2 \<le> length (correctAnswers g) \<and> length (correctAnswers g) \<le> 3 \<and>
    (ca = JArr [] \<longrightarrow> correctAnswers g = [JStr (ascii ''A''), JStr (ascii ''B'')]) \<and>
    (\<forall>x. ca = JArr [x] \<or> ((\<forall>xs. ca \<noteq> JArr xs) \<and> x = ca) \<longrightarrow>
       correctAnswers g =
         [x, JStr (if x = JStr (ascii ''A'') then ascii ''B'' else ascii ''A'')] \<and>
       (\<exists>l. correctAnswers g = [x, JStr l] \<and> l \<in> set abcd \<and> JStr l \<noteq> x \<and>
            (\<forall>l' \<in> set abcd. JStr l' \<noteq> x \<longrightarrow> l \<le> l'))) \<and>
    (\<forall>xs. ca = JArr xs \<and> 3 < length xs \<longrightarrow> correctAnswers g = take 3 xs) \<and>
    (\<forall>xs. ca = JArr xs \<and> 2 \<le> length xs \<and> length xs \<le> 3 \<longrightarrow> correctAnswers g = xs)"
proof -
  from assms(1) obtain qtext cs ca' fc where
    *: "get_prop q (ascii ''correctAnswers'') = Some ca'"
    "g = format_by_type MULTIPLE_RESPONSE qtext fc (answer_array ca')
           (nullish_or (get_prop q (ascii ''explanation'')) (JStr []))"
    by (rule formatQuestion_Inr)
  with assms(2) have "ca' = ca" by simp
  with * have ca: "correctAnswers g = fixMultipleResponse (answer_array ca)"
    by simp
  have len: "2 \<le> length (correctAnswers g) \<and> length (correctAnswers g) \<le> 3"
    unfolding ca by (rule length_fixMultipleResponse)
  have empty: "ca = JArr [] \<longrightarrow> correctAnswers g = [JStr (ascii ''A''), JStr (ascii ''B'')]"
    unfolding ca by (simp add: fixMultipleResponse_empty)
  have single: "correctAnswers g =
         [x, JStr (if x = JStr (ascii ''A'') then ascii ''B'' else ascii ''A'')] \<and>
       (\<exists>l. correctAnswers g = [x, JStr l] \<and> l \<in> set abcd \<and> JStr l \<noteq> x \<and>
            (\<forall>l' \<in> set abcd. JStr l' \<noteq> x \<longrightarrow> l \<le> l'))"
    if "ca = JArr [x] \<or> ((\<forall>xs. ca \<noteq> JArr xs) \<and> x = ca)" for x
  proof -
    from that have "answer_array ca = [x]"
      by (cases ca) auto
    then have c1: "correctAnswers g = fixMultipleResponse [x]"
      by (simp add: ca)
    have "fixMultipleResponse [x] =
        [x, JStr (if x = JStr (ascii ''A'') then ascii ''B'' else ascii ''A'')]"
      by (simp add: fixMultipleResponse_def abcd_def ascii_def)
    with c1 fixMultipleResponse_single [of x] show ?thesis
      by simp
  qed
  have many: "ca = JArr xs \<and> 3 < length xs \<longrightarrow> correctAnswers g = take 3 xs" for xs
    unfolding ca by (auto simp: fixMultipleResponse_many)
  have keep: "ca = JArr xs \<and> 2 \<le> length xs \<and> length xs \<le> 3 \<longrightarrow> correctAnswers g = xs" for xs
    unfolding ca by (auto simp: fixMultipleResponse_keep)
  from len empty single many keep show ?thesis
    by blast
qed

theorem multiple_response_answers_witness:
  "formatQuestion dec_string MULTIPLE_RESPONSE 0
      (raw_question (ascii ''Q'') choices_abcd (JArr [JStr (ascii ''A'')])) =
    Inr \<lparr>question = ascii ''Q'',
         choices = [\<lparr>label = ascii ''A'', content = ascii ''a''\<rparr>,
                    \<lparr>label = ascii ''B'', content = ascii ''b''\<rparr>,
                    \<lparr>label = ascii ''C'', content = ascii ''c''\<rparr>,
                    \<lparr>label = ascii ''D'', content = ascii ''d''\<rparr>],
         correctAnswers = [JStr (ascii ''A''), JStr (ascii ''B'')],
         explanation = JStr [], qtype = MULTIPLE_RESPONSE\<rparr> \<and>
   (\<exists>g. formatQuestion dec_string MULTIPLE_RESPONSE 0
          (raw_question (ascii ''Q'') choices_abcd (JArr [JStr (ascii ''B'')])) = Inr g \<and>
        correctAnswers g = [JStr (ascii ''B''), JStr (ascii ''A'')]) \<and>
   (\<exists>g. formatQuestion dec_string MULTIPLE_RESPONSE 0
          (raw_question (ascii ''Q'') choices_abcd (JStr (ascii ''B''))) = Inr g \<and>
        correctAnswers g = [JStr (ascii ''B''), JStr (ascii ''A'')]) \<and>
   (\<exists>g. formatQuestion dec_string MULTIPLE_RESPONSE 0
          (raw_question (ascii ''Q'') choices_abcd
             (JArr [JStr (ascii ''D''), JStr (ascii ''C''), JStr (ascii ''B''),
                    JStr (ascii ''A'')])) = Inr g \<and>
        correctAnswers g = [JStr (ascii ''D''), JStr (ascii ''C''), JStr (ascii ''B'')]) \<and>
   (\<exists>g. formatQuestion dec_string MULTIPLE_RESPONSE 0
          (raw_question (ascii ''Q'') choices_abcd
             (JArr [JStr (ascii ''C''), JStr (ascii ''D'')])) = Inr g \<and>
        correctAnswers g = [JStr (ascii ''C''), JStr (ascii ''D'')]) \<and>
   (\<exists>g. formatQuestion dec_string MULTIPLE_RESPONSE 0
          (raw_question (ascii ''Q'') choices_abcd (JArr [])) = Inr g \<and>
        correctAnswers g = [JStr (ascii ''A''), JStr (ascii ''B'')])"
proof -
  have run: "\<exists>g. formatQuestion dec_string MULTIPLE_RESPONSE 0
      (raw_question (ascii ''Q'') choices_abcd ca) = Inr g" for ca
    by (simp add: eval_defs)
  have c: "get_prop (raw_question (ascii ''Q'') choices_abcd ca) (ascii ''correctAnswers'') =
      Some ca" for ca
    by (simp add: eval_defs)
  note inst = multiple_response_answers [OF _ c]
  have a: "\<exists>g. formatQuestion dec_string MULTIPLE_RESPONSE 0
          (raw_question (ascii ''Q'') choices_abcd (JArr [JStr (ascii ''A'')])) = Inr g \<and>
        correctAnswers g = [JStr (ascii ''A''), JStr (ascii ''B'')]"
  proof -
    from run obtain g where g: "formatQuestion dec_string MULTIPLE_RESPONSE 0
          (raw_question (ascii ''Q'') choices_abcd (JArr [JStr (ascii ''A'')])) = Inr g"
      by blast
    from inst [OF g] have "correctAnswers g = [JStr (ascii ''A''), JStr (ascii ''B'')]"
      by simp
    with g show ?thesis by blast
  qed
  have b: "\<exists>g. formatQuestion dec_string MULTIPLE_RESPONSE 0
          (raw_question (ascii ''Q'') choices_abcd (JArr [JStr (ascii ''B'')])) = Inr g \<and>
        correctAnswers g = [JStr (ascii ''B''), JStr (ascii ''A'')]"
  proof -
    from run obtain g where g: "formatQuestion dec_string MULTIPLE_RESPONSE 0
          (raw_question (ascii ''Q'') choices_abcd (JArr [JStr (ascii ''B'')])) = Inr g"
      by blast
    from inst [OF g] have "correctAnswers g = [JStr (ascii ''B''), JStr (ascii ''A'')]"
      by (simp add: ascii_def)
    with g show ?thesis by blast
  qed
  have s: "\<exists>g. formatQuestion dec_string MULTIPLE_RESPONSE 0
          (raw_question (ascii ''Q'') choices_abcd (JStr (ascii ''B''))) = Inr g \<and>
        correctAnswers g = [JStr (ascii ''B''), JStr (ascii ''A'')]"
  proof -
    from run obtain g where g: "formatQuestion dec_string MULTIPLE_RESPONSE 0
          (raw_question (ascii ''Q'') choices_abcd (JStr (ascii ''B''))) = Inr g"
      by blast
    from inst [OF g] have "correctAnswers g = [JStr (ascii ''B''), JStr (ascii ''A'')]"
      by (simp add: ascii_def)
    with g show ?thesis by blast
  qed
  have m: "\<exists>g. formatQuestion dec_string MULTIPLE_RESPONSE 0
          (raw_question (ascii ''Q'') choices_abcd
             (JArr [JStr (ascii ''D''), JStr (ascii ''C''), JStr (ascii ''B''),
                    JStr (ascii ''A'')])) = Inr g \<and>
        correctAnswers g = [JStr (ascii ''D''), JStr (ascii ''C''), JStr (ascii ''B'')]"
  proof -
    from run obtain g where g: "formatQuestion dec_string MULTIPLE_RESPONSE 0
          (raw_question (ascii ''Q'') choices_abcd
             (JArr [JStr (ascii ''D''), JStr (ascii ''C''), JStr (ascii ''B''),
                    JStr (ascii ''A'')])) = Inr g"
      by blast
    from inst [OF g]
    have "correctAnswers g = [JStr (ascii ''D''), JStr (ascii ''C''), JStr (ascii ''B'')]"
      by simp
    with g show ?thesis by blast
  qed
  have k: "\<exists>g. formatQuestion dec_string MULTIPLE_RESPONSE 0
          (raw_question (ascii ''Q'') choices_abcd
             (JArr [JStr (ascii ''C''), JStr (ascii ''D'')])) = Inr g \<and>
        correctAnswers g = [JStr (ascii ''C''), JStr (ascii ''D'')]"
  proof -
    from run obtain g where g: "formatQuestion dec_string MULTIPLE_RESPONSE 0
          (raw_question (ascii ''Q'') choices_abcd
             (JArr [JStr (ascii ''C''), JStr (ascii ''D'')])) = Inr g"
      by blast
    from inst [OF g] have "correctAnswers g = [JStr (ascii ''C''), JStr (ascii ''D'')]"
      by simp
    with g show ?thesis by blast
  qed
  have e: "\<exists>g. formatQuestion dec_string MULTIPLE_RESPONSE 0
          (raw_question (ascii ''Q'') choices_abcd (JArr [])) = Inr g \<and>
        correctAnswers g = [JStr (ascii ''A''), JStr (ascii ''B'')]"
  proof -
    from run obtain g where g: "formatQuestion dec_string MULTIPLE_RESPONSE 0
          (raw_question (ascii ''Q'') choices_abcd (JArr [])) = Inr g"
      by blast
    from inst [OF g] have "correctAnswers g = [JStr (ascii ''A''), JStr (ascii ''B'')]"
      by simp
    with g show ?thesis by blast
  qed
  from a obtain g where "formatQuestion dec_string MULTIPLE_RESPONSE 0
          (raw_question (ascii ''Q'') choices_abcd (JArr [JStr (ascii ''A'')])) = Inr g"
     "correctAnswers g = [JStr (ascii ''A''), JStr (ascii ''B'')]"
    by blast
  then have full: "formatQuestion dec_string MULTIPLE_RESPONSE 0
      (raw_question (ascii ''Q'') choices_abcd (JArr [JStr (ascii ''A'')])) =
    Inr \<lparr>question = ascii ''Q'',
         choices = [\<lparr>label = ascii ''A'', content = ascii ''a''\<rparr>,
                    \<lparr>label = ascii ''B'', content = ascii ''b''\<rparr>,
                    \<lparr>label = ascii ''C'', content = ascii ''c''\<rparr>,
                    \<lparr>label = ascii ''D'', content = ascii ''d''\<rparr>],
         correctAnswers = [JStr (ascii ''A''), JStr (ascii ''B'')],
         explanation = JStr [], qtype = MULTIPLE_RESPONSE\<rparr>"
    by (simp add: eval_defs)
  from full b s m k e show ?thesis
    by (intro conjI)
qed

text \<open>
  C1. Under \<open>TRUE_FALSE\<close> the choices are replaced by the pair \<open>True\<close>, \<open>False\<close>, but
  only the first supplied answer is looked at: a response whose answers are
  \<open>["True", "False"]\<close> keeps both.
\<close>

theorem true_false_keeps_all_answers:
  "formatQuestion dec_string TRUE_FALSE 0
      (raw_question (ascii ''Q'') [] (JArr [JStr (ascii ''True''), JStr (ascii ''False'')])) =
    Inr \<lparr>question = ascii ''Q'',
         choices = [\<lparr>label = ascii ''True'', content = [272, 250, 110, 103]\<rparr>,
                    \<lparr>label = ascii ''False'', content = ascii ''Sai''\<rparr>],
         correctAnswers = [JStr (ascii ''True''), JStr (ascii ''False'')],
         explanation = JStr [], qtype = TRUE_FALSE\<rparr>"
  by (simp add: eval_defs)

text \<open>What does hold under \<open>TRUE_FALSE\<close>: the choices are the fixed pair, and the first
  correct answer is \<open>True\<close> or \<open>False\<close>; it is the only one when at most one answer was
  supplied.\<close>

lemma true_false_choices_and_first_answer:
  assumes "formatQuestion toStr TRUE_FALSE i q = Inr g"
    and "get_prop q (ascii ''correctAnswers'') = Some ca"
  shows "choices g =
           [\<lparr>label = ascii ''True'', content = [272, 250, 110, 103]\<rparr>,
            \<lparr>label = ascii ''False'', content = ascii ''Sai''\<rparr>] \<and>
         correctAnswers g \<noteq> [] \<and>
         hd (correctAnswers g) \<in> {JStr (ascii ''True''), JStr (ascii ''False'')} \<and>
         (length (answer_array ca) \<le> 1 \<longrightarrow> length (correctAnswers g) = 1)"
proof -
  from assms(1) obtain qtext cs ca' fc where
    *: "get_prop q (ascii ''choices'') = Some (JArr cs)"
    "get_prop q (ascii ''correctAnswers'') = Some ca'"
    "g = format_by_type TRUE_FALSE qtext fc (answer_array ca')
           (nullish_or (get_prop q (ascii ''explanation'')) (JStr []))"
    by (rule formatQuestion_Inr)
  with assms(2) have "ca' = ca" by simp
  with * have c: "choices g =
           [\<lparr>label = ascii ''True'', content = [272, 250, 110, 103]\<rparr>,
            \<lparr>label = ascii ''False'', content = ascii ''Sai''\<rparr>]"
    and a: "correctAnswers g =
        (if nullish_or (first_elem (answer_array ca)) (JStr [])
              \<notin> set [JStr (ascii ''True''), JStr (ascii ''False'')]
         then [JStr (ascii ''True'')] else answer_array ca)"
    by simp_all
  show ?thesis
  proof (cases "answer_array ca")
    case Nil
    with a c show ?thesis by (simp add: ascii_def)
  next
    case (Cons x xs)
    show ?thesis
    proof (cases "x \<in> {JStr (ascii ''True''), JStr (ascii ''False'')}")
      case True
      then have "nullish_or (Some x) (JStr []) = x" by auto
      with a c Cons True show ?thesis by auto
    next
      case False
      then have "nullish_or (Some x) (JStr []) \<notin> {JStr (ascii ''True''), JStr (ascii ''False'')}"
        by (cases x) (auto simp: ascii_def)
      with a c Cons show ?thesis by simp
    qed
  qed
qed

subsection \<open>Choices\<close>

lemma validateChoices_from_ok:
  assumes "list_all2 (\<lambda>c (l, t). get_prop c (ascii ''label'') = Some l \<and>
                                   get_prop c (ascii ''content'') = Some t) cs vs"
  shows "validateChoices_from toStr i cs =
           Inr (map (\<lambda>(l, t). \<lparr>label = choice_field toStr l, content = choice_field toStr t\<rparr>)
                  vs)"
  using assms
  by (induction cs vs arbitrary: i rule: list_all2_induct)
     (auto simp: validateChoice_def)

lemma validateChoices_from_err:
  assumes "validateChoices_from toStr i0 cs = Inl e"
  shows "\<exists>i < length cs. e = InvalidChoiceStructure (i0 + i) \<and>
           (get_prop (cs ! i) (ascii ''label'') = None \<or>
            get_prop (cs ! i) (ascii ''content'') = None) \<and>
           (\<forall>j < i. get_prop (cs ! j) (ascii ''label'') \<noteq> None \<and>
                     get_prop (cs ! j) (ascii ''content'') \<noteq> None)"
  using assms
proof (induction cs arbitrary: i0)
  case Nil
  then show ?case by simp
next
  case (Cons c cs)
  show ?case
  proof (cases "validateChoice toStr c")
    case None
    with Cons.prems have "e = InvalidChoiceStructure i0" by simp
    moreover from None have "get_prop c (ascii ''label'') = None \<or>
        get_prop c (ascii ''content'') = None"
      by (auto simp: validateChoice_def split: option.splits)
    ultimately show ?thesis by (intro exI [of _ 0]) simp
  next
    case (Some ch)
    with Cons.prems have "validateChoices_from toStr (Suc i0) cs = Inl e"
      by (simp split: sum.splits)
    from Cons.IH [OF this] obtain i where i: "i < length cs"
      "e = InvalidChoiceStructure (Suc i0 + i)"
      "get_prop (cs ! i) (ascii ''label'') = None \<or> get_prop (cs ! i) (ascii ''content'') = None"
      "\<forall>j < i. get_prop (cs ! j) (ascii ''label'') \<noteq> None \<and>
                     get_prop (cs ! j) (ascii ''content'') \<noteq> None"
      by blast
    from Some have c: "get_prop c (ascii ''label'') \<noteq> None \<and>
        get_prop c (ascii ''content'') \<noteq> None"
      by (auto simp: validateChoice_def split: option.splits)
    have "\<forall>j < Suc i. get_prop ((c # cs) ! j) (ascii ''label'') \<noteq> None \<and>
                     get_prop ((c # cs) ! j) (ascii ''content'') \<noteq> None"
      using c i(4) by (auto simp: less_Suc_eq_0_disj)
    with i show ?thesis by (intro exI [of _ "Suc i"]) simp
  qed
qed

text \<open>
  C3. \<open>validateChoices\<close> accepts every list whose entries all have a \<open>label\<close> and a
  \<open>content\<close> property, whatever their values: a string is kept, a number is printed,
  and every other value (a boolean, \<open>null\<close>, an array, an object) becomes the empty
  string. It fails only at an entry that lacks one of the two properties (or is no
  object), and the error carries the index of the first such entry.
\<close>

theorem validateChoices_coercion:
  "(\<forall>vs.
      list_all2 (\<lambda>c (l, t). get_prop c (ascii ''label'') = Some l \<and>
                             get_prop c (ascii ''content'') = Some t) cs vs \<longrightarrow>
      validateChoices toStr cs =
        Inr (map (\<lambda>(l, t). \<lparr>label = choice_field toStr l, content = choice_field toStr t\<rparr>)
               vs)) \<and>
   (\<forall>e. validateChoices toStr cs = Inl e \<longrightarrow>
      (\<exists>i < length cs. e = InvalidChoiceStructure i \<and>
         (get_prop (cs ! i) (ascii ''label'') = None \<or>
          get_prop (cs ! i) (ascii ''content'') = None) \<and>
         (\<forall>j < i. get_prop (cs ! j) (ascii ''label'') \<noteq> None \<and>
                   get_prop (cs ! j) (ascii ''content'') \<noteq> None))) \<and>
   choice_field toStr (JStr s) = s \<and> choice_field toStr (JNum n) = toStr n \<and>
   choice_field toStr (JBool b) = [] \<and> choice_field toStr JNull = [] \<and>
   choice_field toStr (JArr xs) = [] \<and> choice_field toStr (JObj kv) = []"
  using validateChoices_from_ok [of cs _ toStr 0] validateChoices_from_err [of toStr 0 cs]
  by (simp add: validateChoices_def)

theorem validateChoices_coercion_witness:
  "validateChoices dec_string [raw_choice (JNum 12) (JBool True)] =
     Inr [\<lparr>label = ascii ''12'', content = []\<rparr>]"
proof -
  have h: "list_all2 (\<lambda>c (l, t). get_prop c (ascii ''label'') = Some l \<and>
                             get_prop c (ascii ''content'') = Some t)
             [raw_choice (JNum 12) (JBool True)] [(JNum 12, JBool True)]"
    by (simp add: raw_choice_def ascii_def)
  from validateChoices_coercion [of "[raw_choice (JNum 12) (JBool True)]" dec_string]
  have "validateChoices dec_string [raw_choice (JNum 12) (JBool True)] =
      Inr [\<lparr>label = choice_field dec_string (JNum 12),
            content = choice_field dec_string (JBool True)\<rparr>]"
    using h by (auto dest!: spec [of _ "[(JNum 12, JBool True)]"])
  then show ?thesis
    by (simp add: dec_string.simps ascii_def)
qed

text \<open>A boolean label and a \<open>null\<close> content are accepted, as empty strings.\<close>

theorem validateChoices_accepts_boolean_and_null:
  "validateChoices dec_string [raw_choice (JBool True) JNull] =
     Inr [\<lparr>label = [], content = []\<rparr>]"
  by (simp add: eval_defs)

subsection \<open>Answers and labels\<close>

lemma nullish_or_first_elem:
  "nullish_or (first_elem xs) d \<in> insert d (set xs)"
  by (cases xs; cases "hd xs") auto

lemma set_fixMultipleResponse:
  "set (fixMultipleResponse fca) \<subseteq> set fca \<union> JStr ` set abcd"
proof -
  have t: "set (take 3 fca) \<subseteq> set fca"
    by (rule set_take_subset)
  have f: "filter (\<lambda>l. JStr l \<notin> set fca) abcd = l # ls \<Longrightarrow> l \<in> set abcd" for l ls
    by (metis filter_is_subset list.set_intros(1) subsetD)
  have ab: "ascii ''A'' \<in> set abcd" "ascii ''B'' \<in> set abcd"
    by (simp_all add: abcd_def)
  consider "2 \<le> length fca" "length fca \<le> 3" | "3 < length fca" | "length fca = 1" | "fca = []"
  proof -
    have "length fca = 0 \<or> length fca = 1 \<or> (2 \<le> length fca \<and> length fca \<le> 3) \<or> 3 < length fca"
      by arith
    then show ?thesis using that by auto
  qed
  then show ?thesis
  proof cases
    case 1
    then show ?thesis by (simp add: fixMultipleResponse_keep)
  next
    case 2
    then show ?thesis using t by (auto simp: fixMultipleResponse_many)
  next
    case 3
    then obtain x where x: "fca = [x]"
      by (cases fca) auto
    from fixMultipleResponse_single [of x] obtain l where
      "fixMultipleResponse [x] = [x, JStr l]" "l \<in> set abcd" by blast
    with x show ?thesis by auto
  next
    case 4
    then show ?thesis using ab by (simp add: fixMultipleResponse_empty)
  qed
qed

text \<open>
  C4. The normalizer never compares answers with labels. What it guarantees is where the
  answers come from: each is one of the supplied answers, one of the fallback labels
  \<open>A\<close>, \<open>B\<close>, \<open>C\<close>, \<open>D\<close>, or a label of the choices. Under \<open>MATCHING\<close> the answers are
  exactly the labels of the choices, so there the invariant holds; under the other types
  it holds whenever the supplied answers and the fallback labels are labels of the choices.
\<close>

theorem normalized_answers_origin:
  assumes "formatQuestion toStr ty i q = Inr g"
    and "get_prop q (ascii ''correctAnswers'') = Some ca"
  shows "set (correctAnswers g) \<subseteq>
           set (answer_array ca) \<union> JStr ` set abcd \<union> JStr ` label ` set (choices g) \<and>
         (ty = MATCHING \<longrightarrow>
            correctAnswers g = map (\<lambda>c. JStr (label c)) (choices g) \<and> answers_among_labels g) \<and>
         (set (answer_array ca) \<union> JStr ` set abcd \<subseteq> JStr ` label ` set (choices g) \<longrightarrow>
            answers_among_labels g)"
proof -
  from assms(1) obtain qtext cs ca' fc where
    *: "get_prop q (ascii ''choices'') = Some (JArr cs)"
    "get_prop q (ascii ''correctAnswers'') = Some ca'"
    "g = format_by_type ty qtext fc (answer_array ca')
           (nullish_or (get_prop q (ascii ''explanation'')) (JStr []))"
    by (rule formatQuestion_Inr)
  with assms(2) have "ca' = ca" by simp
  with * obtain expl where g: "g = format_by_type ty qtext fc (answer_array ca) expl"
    by blast
  have a_abcd: "JStr (ascii ''A'') \<in> JStr ` set abcd"
    by (simp add: abcd_def)
  have origin: "set (correctAnswers g) \<subseteq>
      set (answer_array ca) \<union> JStr ` set abcd \<union> JStr ` label ` set (choices g)"
  proof (cases ty)
    case MULTIPLE_CHOICE
    then have "correctAnswers g = [nullish_or (first_elem (answer_array ca)) (JStr (ascii ''A''))]"
      by (simp add: g)
    with nullish_or_first_elem [of "answer_array ca" "JStr (ascii ''A'')"] a_abcd
    show ?thesis by auto
  next
    case TRUE_FALSE
    then have "correctAnswers g = [JStr (ascii ''True'')] \<or> correctAnswers g = answer_array ca"
      by (simp add: g)
    moreover from TRUE_FALSE have "ascii ''True'' \<in> label ` set (choices g)"
      by (simp add: g)
    ultimately show ?thesis by auto
  next
    case MULTIPLE_RESPONSE
    then have "correctAnswers g = fixMultipleResponse (answer_array ca)"
      by (simp add: g)
    with set_fixMultipleResponse [of "answer_array ca"]
    show ?thesis by auto
  next
    case MATCHING
    then have "correctAnswers g = map (\<lambda>c. JStr (label c)) (choices g)"
      by (simp add: g)
    then show ?thesis by auto
  next
    case COMPLETION
    then have "correctAnswers g = [nullish_or (first_elem (answer_array ca)) (JStr (ascii ''A''))]"
      by (simp add: g)
    with nullish_or_first_elem [of "answer_array ca" "JStr (ascii ''A'')"] a_abcd
    show ?thesis by auto
  qed
  have matching: "ty = MATCHING \<longrightarrow>
      correctAnswers g = map (\<lambda>c. JStr (label c)) (choices g) \<and> answers_among_labels g"
  proof
    assume "ty = MATCHING"
    then have "correctAnswers g = map (\<lambda>c. JStr (label c)) (choices g)"
      by (simp add: g)
    then show "correctAnswers g = map (\<lambda>c. JStr (label c)) (choices g) \<and>
        answers_among_labels g"
      by (simp add: answers_among_labels_def image_image)
  qed
  have sub: "X \<subseteq> A \<union> B \<union> L \<Longrightarrow> A \<union> B \<subseteq> L \<Longrightarrow> X \<subseteq> L" for X A B L :: "'a json set"
    by blast
  have "set (answer_array ca) \<union> JStr ` set abcd \<subseteq> JStr ` label ` set (choices g) \<longrightarrow>
      answers_among_labels g"
    unfolding answers_among_labels_def using sub [OF origin] by (rule impI)
  with origin matching show ?thesis by (intro conjI)
qed

theorem normalized_answers_origin_witness:
  "\<exists>g. formatQuestion dec_string MATCHING 0
          (raw_question (ascii ''Q'') choices_abcd (JArr [JStr (ascii ''Z'')])) = Inr g \<and>
        correctAnswers g =
          [JStr (ascii ''A''), JStr (ascii ''B''), JStr (ascii ''C''), JStr (ascii ''D'')] \<and>
        answers_among_labels g"
proof -
  let ?q = "raw_question (ascii ''Q'') choices_abcd (JArr [JStr (ascii ''Z'')])"
  obtain g where g: "formatQuestion dec_string MATCHING 0 ?q = Inr g"
    by (simp add: eval_defs)
  have c: "get_prop ?q (ascii ''correctAnswers'') = Some (JArr [JStr (ascii ''Z'')])"
    by (simp add: eval_defs)
  from normalized_answers_origin [OF g c]
  have "correctAnswers g = map (\<lambda>c. JStr (label c)) (choices g)" "answers_among_labels g"
    by simp_all
  moreover from g have "choices g = [\<lparr>label = ascii ''A'', content = ascii ''a''\<rparr>,
                    \<lparr>label = ascii ''B'', content = ascii ''b''\<rparr>,
                    \<lparr>label = ascii ''C'', content = ascii ''c''\<rparr>,
                    \<lparr>label = ascii ''D'', content = ascii ''d''\<rparr>]"
    by (auto simp: eval_defs)
  ultimately show ?thesis using g by auto
qed

text \<open>A supplied answer that is no label stays, and so do the fallback answers of a
  question without choices.\<close>

theorem answers_not_among_labels:
  "(\<exists>g. formatQuestion dec_string MULTIPLE_CHOICE 0
          (raw_question (ascii ''Q'') choices_abcd (JArr [JStr (ascii ''Z'')])) = Inr g \<and>
        correctAnswers g = [JStr (ascii ''Z'')] \<and> \<not> answers_among_labels g) \<and>
   (\<exists>g. formatQuestion dec_string MULTIPLE_RESPONSE 0
          (raw_question (ascii ''Q'') [] (JArr [])) = Inr g \<and>
        correctAnswers g = [JStr (ascii ''A''), JStr (ascii ''B'')] \<and>
        \<not> answers_among_labels g)"
  by (simp add: eval_defs answers_among_labels_def)

subsection \<open>Blank markers\<close>

lemmas pat_defs = pat_la_def pat_bang_def pat_co_def pat_duoc_goi_la_def pat_qmark_end_def
  s_la_def s_bang_def s_co_def s_duoc_def s_goi_def marker_def is_space_def is_token_def
  ascii_def

lemma str_includes_append_right:
  "str_includes ys p \<Longrightarrow> str_includes (xs @ ys) p"
  by (induction xs) auto

lemma str_includes_add_blank_at_end:
  "str_includes (add_blank_at_end fixed) marker"
proof -
  have "str_includes (ascii '' _____'') marker"
    by (simp add: marker_def ascii_def)
  then have "str_includes (xs @ ascii '' _____'') marker" for xs
    by (rule str_includes_append_right)
  then show ?thesis
    by (simp add: add_blank_at_end_def Let_def)
qed

lemma str_includes_fixCompletion:
  "str_includes (fixCompletion t) marker"
  by (simp add: fixCompletion_def Let_def str_includes_add_blank_at_end)

lemma fixCompletion_example: "fixCompletion example_text = example_fixed"
  by (simp add: fixCompletion_def add_blank_at_end_def example_text_def example_fixed_def
      pat_defs)

text \<open>
  C2. A \<open>COMPLETION\<close> text without blank marker goes through all four substitutions, one
  after the other, each with the \<open>g\<close> flag (every match of \<open>la X\<close> is replaced, then
  every match of \<open>bang X\<close> in the result, then of \<open>co X\<close>, then of \<open>duoc goi la X\<close>);
  if there is still no marker, one is put before a final question mark or at the end. The
  result always contains the marker. On the example text the result has the marker in
  place of \<open>Ha\<close>, exactly once.
\<close>

theorem completion_repair:
  assumes "formatQuestion toStr COMPLETION i q = Inr g"
    and "get_prop q (ascii ''question'') = Some (JStr t)"
    and "\<not> str_includes t marker"
  shows "question g =
           add_blank_at_end
             (replace_all pat_duoc_goi_la (s_duoc @ 32 # s_goi @ 32 # s_la @ 32 # marker)
               (replace_all pat_co (s_co @ 32 # marker)
                 (replace_all pat_bang (s_bang @ 32 # marker)
                   (replace_all pat_la (s_la @ 32 # marker) t)))) \<and>
         str_includes (question g) marker \<and>
         (t = example_text \<longrightarrow>
            question g = example_fixed \<and> count_occurrences (question g) marker = 1 \<and>
            \<not> str_includes (question g) [72, 224])"
proof -
  from assms(1) obtain qtext fc ca expl where
    *: "get_prop q (ascii ''question'') = Some (JStr qtext)"
    "g = format_by_type COMPLETION qtext fc (answer_array ca) expl"
    by (rule formatQuestion_Inr)
  with assms(2) have "qtext = t" by simp
  with * assms(3) have q: "question g = fixCompletion t"
    by simp
  have "count_occurrences example_fixed marker = 1 \<and> \<not> str_includes example_fixed [72, 224]"
    by (simp add: example_fixed_def marker_def ascii_def)
  with q show ?thesis
    by (simp add: str_includes_fixCompletion fixCompletion_example)
      (simp add: fixCompletion_def)
qed

theorem completion_repair_witness:
  "\<exists>g. formatQuestion dec_string COMPLETION 0
          (raw_question example_text choices_abcd (JArr [JStr (ascii ''A'')])) = Inr g \<and>
        question g = example_fixed \<and> count_occurrences (question g) marker = 1 \<and>
        \<not> str_includes (question g) [72, 224]"
proof -
  let ?q = "raw_question example_text choices_abcd (JArr [JStr (ascii ''A'')])"
  obtain g where g: "formatQuestion dec_string COMPLETION 0 ?q = Inr g"
    by (simp add: eval_defs)
  have t: "get_prop ?q (ascii ''question'') = Some (JStr example_text)"
    by (simp add: eval_defs)
  have m: "\<not> str_includes example_text marker"
    by (simp add: example_text_def marker_def ascii_def)
  from completion_repair [OF g t m]
  have "question g = example_fixed \<and> count_occurrences (question g) marker = 1 \<and>
      \<not> str_includes (question g) [72, 224]"
    by blast
  with g show ?thesis
    by blast
qed

text \<open>On a text that two patterns match, both matches are replaced; replacing only the
  first match of the first pattern would leave \<open>co Z\<close>.\<close>

theorem completion_repair_replaces_every_match:
  "(\<exists>g. formatQuestion dec_string COMPLETION 0
          (raw_question two_pattern_text choices_abcd (JArr [JStr (ascii ''A'')])) = Inr g \<and>
        question g =
          [88, 32, 108, 224, 32, 95, 95, 95, 95, 95, 32, 99, 243, 32, 95, 95, 95, 95, 95] \<and>
        count_occurrences (question g) marker = 2 \<and>
        question g \<noteq> repair_first_match_only two_pattern_text) \<and>
   \<not> str_includes two_pattern_text marker \<and>
   repair_first_match_only two_pattern_text =
     [88, 32, 108, 224, 32, 95, 95, 95, 95, 95, 32, 99, 243, 32, 90]"
proof -
  have "fixCompletion two_pattern_text =
      [88, 32, 108, 224, 32, 95, 95, 95, 95, 95, 32, 99, 243, 32, 95, 95, 95, 95, 95]"
    by (simp add: fixCompletion_def add_blank_at_end_def two_pattern_text_def pat_defs)
  moreover have m: "\<not> str_includes two_pattern_text marker"
    by (simp add: two_pattern_text_def marker_def ascii_def)
  moreover have "repair_first_match_only two_pattern_text =
      [88, 32, 108, 224, 32, 95, 95, 95, 95, 95, 32, 99, 243, 32, 90]"
    by (simp add: repair_first_match_only_def two_pattern_text_def pat_defs)
  moreover have "count_occurrences
      [88, 32, 108, 224, 32, 95, 95, 95, 95, 95, 32, 99, 243, 32, 95, 95, 95, 95, 95] marker = 2"
    by (simp add: marker_def ascii_def)
  ultimately show ?thesis
    by (simp add: eval_defs)
qed

section \<open>Properties of the aggregator\<close>

lemma questionsPerType_div:
  assumes "0 < n"
  shows "questionsPerType c n = (c + n - 1) div n"
proof -
  let ?q = "(c + n - 1) div n"
  have up: "c \<le> ?q * n"
  proof -
    have "c + n - 1 < ?q * n + n"
      using assms by (metis div_mult_mod_eq mod_less_divisor add_less_cancel_left)
    then show ?thesis by arith
  qed
  have low: "?q * n < c + n"
  proof -
    have "?q * n \<le> c + n - 1" by simp
    with assms show ?thesis by arith
  qed
  have "\<lceil>(of_nat c :: rat) / of_nat n\<rceil> = int ?q"
  proof (rule ceiling_unique)
    have "(of_nat (?q * n) :: rat) < of_nat (c + n)"
      using low by (simp only: of_nat_less_iff)
    then have "(of_nat ?q - 1) * (of_nat n :: rat) < of_nat c"
      by (simp add: algebra_simps)
    then show "of_int (int ?q) - 1 < (of_nat c :: rat) / of_nat n"
      using assms by (simp add: pos_less_divide_eq)
    have "(of_nat c :: rat) \<le> of_nat (?q * n)"
      using up by (simp only: of_nat_le_iff)
    then show "(of_nat c :: rat) / of_nat n \<le> of_int (int ?q)"
      using assms by (simp add: pos_divide_le_eq)
  qed
  then show ?thesis
    by (simp add: questionsPerType_def)
qed

lemma qtype_format_by_type [simp]:
  "qtype (format_by_type ty qtext fc fca expl) = ty"
  by (cases ty) simp_all

lemma format_by_type_repaired:
  "(ty = MULTIPLE_RESPONSE \<longrightarrow> 2 \<le> length (correctAnswers (format_by_type ty qtext fc fca expl))) \<and>
   (ty = COMPLETION \<longrightarrow> str_includes (question (format_by_type ty qtext fc fca expl)) marker)"
  using length_fixMultipleResponse [of fca]
  by (cases ty) (simp_all add: str_includes_fixCompletion)

lemma formatQuestion_repaired:
  assumes "formatQuestion toStr ty i q = Inr g"
  shows "qtype g = ty \<and> (ty = MULTIPLE_RESPONSE \<longrightarrow> 2 \<le> length (correctAnswers g)) \<and>
         (ty = COMPLETION \<longrightarrow> str_includes (question g) marker)"
proof -
  from assms obtain qtext fc ca expl where
    "g = format_by_type ty qtext fc (answer_array ca) expl"
    by (rule formatQuestion_Inr)
  then show ?thesis
    using format_by_type_repaired [of ty qtext fc "answer_array ca" expl] by simp
qed

lemma revalidate_id:
  assumes "qtype g = MULTIPLE_RESPONSE \<longrightarrow> 2 \<le> length (correctAnswers g)"
    and "qtype g = COMPLETION \<longrightarrow> str_includes (question g) marker"
  shows "revalidate g = g"
  using assms by (auto simp: revalidate_def Let_def)

lemma validateAndFormatQuestions_from_set:
  assumes "validateAndFormatQuestions_from toStr ty i qs = Inr out" and "g \<in> set out"
  shows "\<exists>j q. formatQuestion toStr ty j q = Inr g"
  using assms
proof (induction qs arbitrary: i out)
  case Nil
  then show ?case by simp
next
  case (Cons q qs)
  from Cons.prems(1) obtain g0 gs where
    "formatQuestion toStr ty i q = Inr g0"
    "validateAndFormatQuestions_from toStr ty (Suc i) qs = Inr gs" "out = g0 # gs"
    by (auto split: sum.splits)
  with Cons.prems(2) Cons.IH [of "Suc i" gs] show ?case
    by auto
qed

lemma validateAndFormatQuestions_repaired:
  assumes "validateAndFormatQuestions toStr questions ty = Inr formatted"
    and "g \<in> set formatted"
  shows "qtype g = ty \<and> (ty = MULTIPLE_RESPONSE \<longrightarrow> 2 \<le> length (correctAnswers g)) \<and>
         (ty = COMPLETION \<longrightarrow> str_includes (question g) marker)"
proof -
  from assms obtain j q where "formatQuestion toStr ty j q = Inr g"
    unfolding validateAndFormatQuestions_def
    by (blast dest: validateAndFormatQuestions_from_set)
  then show ?thesis by (rule formatQuestion_repaired)
qed

lemma validateAndFormatQuestions_revalidate:
  assumes "validateAndFormatQuestions toStr questions ty = Inr formatted"
  shows "map revalidate formatted = formatted"
proof (rule map_idI)
  fix g assume "g \<in> set formatted"
  with assms have "qtype g = ty \<and> (ty = MULTIPLE_RESPONSE \<longrightarrow> 2 \<le> length (correctAnswers g)) \<and>
         (ty = COMPLETION \<longrightarrow> str_includes (question g) marker)"
    by (rule validateAndFormatQuestions_repaired)
  then show "revalidate g = g"
    by (intro revalidate_id) simp_all
qed

lemma generateQuestions_revalidate:
  assumes "generateQuestions backend toStr w r = (Inr out, w')"
  shows "map revalidate out = out"
proof -
  from assms obtain questions where
    "validateAndFormatQuestions toStr questions (req_questionType r) = Inr out"
    by (auto simp: generateQuestions_def split: prod.splits option.splits sum.splits)
  then show ?thesis by (rule validateAndFormatQuestions_revalidate)
qed

lemma run_requests_revalidate:
  assumes "run_requests backend toStr rs w = (Inr outs, w')"
  shows "map revalidate (concat outs) = concat outs"
  using assms
proof (induction rs arbitrary: w outs)
  case Nil
  then show ?case by simp
next
  case (Cons r rs)
  from Cons.prems obtain out w1 outs' where
    r: "generateQuestions backend toStr w r = (Inr out, w1)"
    and rs: "run_requests backend toStr rs w1 = (Inr outs', w')"
    and outs: "outs = out # outs'"
    by (auto split: prod.splits sum.splits)
  from generateQuestions_revalidate [OF r] Cons.IH [OF rs] outs
  show ?case by simp
qed

lemma generate_each_run_requests:
  "generate_each backend toStr dto text perType tys acc w =
     (case run_requests backend toStr
             (map (\<lambda>ty. \<lparr>req_content = text, req_subject = dto_subject dto,
                          req_questionCount = perType, req_questionType = ty,
                          req_tone = dto_tone dto, req_difficulty = dto_difficulty dto\<rparr>) tys) w of
        (Inl e, w') \<Rightarrow> (Inl e, w')
      | (Inr outs, w') \<Rightarrow> (Inr (acc @ concat outs), w'))"
proof (induction tys arbitrary: acc w)
  case Nil
  then show ?case by simp
next
  case (Cons ty tys)
  show ?case
    by (simp add: Cons.IH split: prod.splits sum.splits)
qed

text \<open>
  C7. The aggregator asks for \<open>\<lceil>questionCount / n\<rceil>\<close> questions of each of the \<open>n\<close>
  entries of \<open>questionTypes\<close>: it runs the single-type pipeline once per entry, in the
  order of the list (an entry that occurs twice is run twice), and fails when one of the
  runs fails; otherwise its result is the first \<open>questionCount\<close> questions of the
  concatenation of the results, in that order.
\<close>

theorem aggregator_takes_prefix_of_concatenation:
  "generateMultipleQuestions backend toStr dto text w =
     (case run_requests backend toStr
             (map (\<lambda>ty. \<lparr>req_content = text, req_subject = dto_subject dto,
                          req_questionCount =
                            nat \<lceil>(of_nat (dto_questionCount dto) :: rat) /
                                  of_nat (length (dto_questionTypes dto))\<rceil>,
                          req_questionType = ty,
                          req_tone = dto_tone dto, req_difficulty = dto_difficulty dto\<rparr>)
                (dto_questionTypes dto)) w of
        (Inl e, w') \<Rightarrow> (Inl e, w')
      | (Inr outs, w') \<Rightarrow> (Inr (take (dto_questionCount dto) (concat outs)), w'))"
  unfolding generateMultipleQuestions_def generate_each_run_requests questionsPerType_def
  by (auto split: prod.splits sum.splits dest: run_requests_revalidate)

text \<open>
  C10. The second repair pass of the aggregator changes nothing: a question that
  \<open>validateAndFormatQuestions\<close> returns has the type it was asked for, at least two
  correct answers if that type is \<open>MULTIPLE_RESPONSE\<close>, and the blank marker in its text
  if it is \<open>COMPLETION\<close>; so the list collected over all types is left as it is.
\<close>

theorem second_repair_pass_is_identity:
  "(\<forall>formatted. validateAndFormatQuestions toStr questions ty = Inr formatted \<longrightarrow>
      map revalidate formatted = formatted \<and>
      (\<forall>g \<in> set formatted.
         qtype g = ty \<and> (ty = MULTIPLE_RESPONSE \<longrightarrow> 2 \<le> length (correctAnswers g)) \<and>
         (ty = COMPLETION \<longrightarrow> str_includes (question g) marker))) \<and>
   (\<forall>allGeneratedQuestions w'.
      generate_each backend toStr' dto text perType tys [] w = (Inr allGeneratedQuestions, w') \<longrightarrow>
      map revalidate allGeneratedQuestions = allGeneratedQuestions)"
proof (intro conjI allI impI ballI)
  fix formatted assume "validateAndFormatQuestions toStr questions ty = Inr formatted"
  then show "map revalidate formatted = formatted"
    by (rule validateAndFormatQuestions_revalidate)
next
  fix formatted g
  assume "validateAndFormatQuestions toStr questions ty = Inr formatted" "g \<in> set formatted"
  then have *: "qtype g = ty \<and> (ty = MULTIPLE_RESPONSE \<longrightarrow> 2 \<le> length (correctAnswers g)) \<and>
         (ty = COMPLETION \<longrightarrow> str_includes (question g) marker)"
    by (rule validateAndFormatQuestions_repaired)
  then show "qtype g = ty" by simp
  { assume "ty = MULTIPLE_RESPONSE" with * show "2 \<le> length (correctAnswers g)" by simp }
  { assume "ty = COMPLETION" with * show "str_includes (question g) marker" by simp }
next
  fix allGeneratedQuestions w'
  assume "generate_each backend toStr' dto text perType tys [] w = (Inr allGeneratedQuestions, w')"
  then obtain outs where
    "run_requests backend toStr'
       (map (\<lambda>ty. \<lparr>req_content = text, req_subject = dto_subject dto,
                    req_questionCount = perType, req_questionType = ty,
                    req_tone = dto_tone dto, req_difficulty = dto_difficulty dto\<rparr>) tys) w =
     (Inr outs, w')" "allGeneratedQuestions = concat outs"
    unfolding generate_each_run_requests
    by (auto split: prod.splits sum.splits)
  then show "map revalidate allGeneratedQuestions = allGeneratedQuestions"
    by (simp add: run_requests_revalidate)
qed

lemma example_multiple_response:
  "validateAndFormatQuestions dec_string
      [raw_question (ascii ''Q?'') choices_abcd (JArr [JStr (ascii ''C'')]),
       raw_question (ascii ''R'') choices_abcd (JStr (ascii ''A''))] MULTIPLE_RESPONSE =
    Inr [\<lparr>question = ascii ''Q?'', choices = example_choices,
          correctAnswers = [JStr (ascii ''C''), JStr (ascii ''A'')],
          explanation = JStr [], qtype = MULTIPLE_RESPONSE\<rparr>,
         \<lparr>question = ascii ''R'', choices = example_choices,
          correctAnswers = [JStr (ascii ''A''), JStr (ascii ''B'')],
          explanation = JStr [], qtype = MULTIPLE_RESPONSE\<rparr>]"
  by (simp add: validateAndFormatQuestions_def eval_defs example_choices_def)

lemma example_completion:
  "validateAndFormatQuestions dec_string
      [raw_question (ascii ''Q?'') choices_abcd (JArr [JStr (ascii ''C'')]),
       raw_question (ascii ''R'') choices_abcd (JStr (ascii ''A''))] COMPLETION =
    Inr [\<lparr>question = ascii ''Q _____?'', choices = example_choices,
          correctAnswers = [JStr (ascii ''C'')],
          explanation = JStr [], qtype = COMPLETION\<rparr>,
         \<lparr>question = ascii ''R _____'', choices = example_choices,
          correctAnswers = [JStr (ascii ''A'')],
          explanation = JStr [], qtype = COMPLETION\<rparr>]"
  by (simp add: validateAndFormatQuestions_def eval_defs example_choices_def
      fixCompletion_def add_blank_at_end_def pat_la_def pat_bang_def pat_co_def
      pat_duoc_goi_la_def pat_qmark_end_def s_la_def s_bang_def s_co_def s_duoc_def s_goi_def
      marker_def is_space_def is_token_def)

theorem aggregator_takes_prefix_of_concatenation_witness:
  "generateMultipleQuestions example_backend dec_string example_dto (ascii ''t'') 0 =
     (Inr [\<lparr>question = ascii ''Q?'', choices = example_choices,
            correctAnswers = [JStr (ascii ''C''), JStr (ascii ''A'')],
            explanation = JStr [], qtype = MULTIPLE_RESPONSE\<rparr>,
           \<lparr>question = ascii ''R'', choices = example_choices,
            correctAnswers = [JStr (ascii ''A''), JStr (ascii ''B'')],
            explanation = JStr [], qtype = MULTIPLE_RESPONSE\<rparr>], 2)"
  unfolding aggregator_takes_prefix_of_concatenation
  by (simp add: example_dto_def generateQuestions_def example_backend_def
      example_multiple_response example_completion)

theorem second_repair_pass_is_identity_witness:
  "(\<exists>formatted.
      validateAndFormatQuestions dec_string
        [raw_question (ascii ''Q?'') choices_abcd (JArr [JStr (ascii ''C'')]),
         raw_question (ascii ''R'') choices_abcd (JStr (ascii ''A''))] COMPLETION =
        Inr formatted \<and>
      map revalidate formatted = formatted \<and> length formatted = 2) \<and>
   (\<exists>allGeneratedQuestions w'.
      generate_each example_backend dec_string example_dto (ascii ''t'') 1
        [MULTIPLE_RESPONSE, COMPLETION] [] 0 = (Inr allGeneratedQuestions, w') \<and>
      map revalidate allGeneratedQuestions = allGeneratedQuestions \<and>
      length allGeneratedQuestions = 4)"
proof -
  have g: "generate_each example_backend dec_string example_dto (ascii ''t'') 1
        [MULTIPLE_RESPONSE, COMPLETION] [] 0 =
      (Inr [\<lparr>question = ascii ''Q?'', choices = example_choices,
            correctAnswers = [JStr (ascii ''C''), JStr (ascii ''A'')],
            explanation = JStr [], qtype = MULTIPLE_RESPONSE\<rparr>,
           \<lparr>question = ascii ''R'', choices = example_choices,
            correctAnswers = [JStr (ascii ''A''), JStr (ascii ''B'')],
            explanation = JStr [], qtype = MULTIPLE_RESPONSE\<rparr>,
           \<lparr>question = ascii ''Q _____?'', choices = example_choices,
            correctAnswers = [JStr (ascii ''C'')],
            explanation = JStr [], qtype = COMPLETION\<rparr>,
           \<lparr>question = ascii ''R _____'', choices = example_choices,
            correctAnswers = [JStr (ascii ''A'')],
            explanation = JStr [], qtype = COMPLETION\<rparr>], 2)"
    by (simp add: generateQuestions_def example_backend_def
        example_multiple_response example_completion)
  note inst = second_repair_pass_is_identity
    [of dec_string "[raw_question (ascii ''Q?'') choices_abcd (JArr [JStr (ascii ''C'')]),
         raw_question (ascii ''R'') choices_abcd (JStr (ascii ''A''))]" COMPLETION
      example_backend dec_string example_dto "ascii ''t''" 1
      "[MULTIPLE_RESPONSE, COMPLETION]" 0]
  let ?two = "[\<lparr>question = ascii ''Q _____?'', choices = example_choices,
          correctAnswers = [JStr (ascii ''C'') :: nat json],
          explanation = JStr [], qtype = COMPLETION\<rparr>,
         \<lparr>question = ascii ''R _____'', choices = example_choices,
          correctAnswers = [JStr (ascii ''A'')],
          explanation = JStr [], qtype = COMPLETION\<rparr>]"
  let ?four = "[\<lparr>question = ascii ''Q?'', choices = example_choices,
            correctAnswers = [JStr (ascii ''C''), JStr (ascii ''A'') :: nat json],
            explanation = JStr [], qtype = MULTIPLE_RESPONSE\<rparr>,
           \<lparr>question = ascii ''R'', choices = example_choices,
            correctAnswers = [JStr (ascii ''A''), JStr (ascii ''B'')],
            explanation = JStr [], qtype = MULTIPLE_RESPONSE\<rparr>,
           \<lparr>question = ascii ''Q _____?'', choices = example_choices,
            correctAnswers = [JStr (ascii ''C'')],
            explanation = JStr [], qtype = COMPLETION\<rparr>,
           \<lparr>question = ascii ''R _____'', choices = example_choices,
            correctAnswers = [JStr (ascii ''A'')],
            explanation = JStr [], qtype = COMPLETION\<rparr>]"
  from inst example_completion have "map revalidate ?two = ?two"
    by blast
  moreover from inst g have "map revalidate ?four = ?four"
    by blast
  ultimately show ?thesis
    using example_completion g by simp
qed

section \<open>Properties of the text normalizer\<close>

lemmas san_defs = sanitizeText_def normalize_whitespace_def truncateText_def trim_def
  MAX_CHARS_def is_space_def

text \<open>
  C5. Line breaks are whitespace, so the first substitution already turns every run of
  whitespace, line breaks included, into one space; the second substitution finds no line
  break any more. A blank line and a single line break both come out as a space.
\<close>

theorem sanitizeText_turns_line_breaks_into_spaces:
  "sanitizeText [97, 10, 10, 98] =
     \<lparr>out_text = [97, 32, 98], wasTruncated = False, originalLength = 3,
      truncatedLength = 3\<rparr> \<and>
   sanitizeText [97, 10, 98] =
     \<lparr>out_text = [97, 32, 98], wasTruncated = False, originalLength = 3,
      truncatedLength = 3\<rparr>"
  by (simp add: san_defs)

subsection \<open>Searching backwards\<close>

lemma lastIndexOf_from_none:
  "(\<forall>k < n. \<not> prefix p (drop k s)) \<Longrightarrow> lastIndexOf_from s p n = - 1"
  by (induction n) auto




lemma fold_last_index:
  fixes f :: "'a \<Rightarrow> int"
  defines "g \<equiv> (\<lambda>x last. (let index = f x in if index > last then index else last))"
  shows "a \<le> fold g xs a \<and> (\<forall>x \<in> set xs. f x \<le> fold g xs a) \<and>
         (fold g xs a = a \<or> fold g xs a \<in> f ` set xs)"
proof (induction xs arbitrary: a)
  case Nil
  then show ?case by simp
next
  case (Cons x xs)
  from Cons [of "g x a"] show ?case
    by (auto simp: g_def Let_def split: if_splits)
qed


lemma last_index_among_none:
  assumes "\<forall>p \<in> set patterns. lastIndexOf s p = - 1"
  shows "last_index_among s patterns = - 1"
proof -
  from fold_last_index [of "- 1" "lastIndexOf s" patterns]
  have "last_index_among s patterns = - 1 \<or>
      last_index_among s patterns \<in> lastIndexOf s ` set patterns"
    unfolding last_index_among_def by blast
  with assms show ?thesis by auto
qed

subsection \<open>Trimming\<close>


lemma trim_keeps_end:
  assumes "s \<noteq> []" "\<not> is_space (last s)"
  shows "trim s \<noteq> [] \<and> last (trim s) = last s \<and> length (trim s) \<le> length s"
proof -
  let ?u = "dropWhile is_space s"
  have u: "?u \<noteq> []"
    using assms by (metis dropWhile_eq_Nil_conv last_in_set)
  have "last ?u = last s"
    using u by (metis last_appendR takeWhile_dropWhile_id)
  with assms u have "dropWhile is_space (rev ?u) = rev ?u"
    by (cases "rev ?u") (auto simp: hd_rev)
  then have "trim s = ?u" by (simp add: trim_def)
  with u \<open>last ?u = last s\<close> show ?thesis
    by (simp add: length_dropWhile_le)
qed

lemma length_trim_le: "length (trim s) \<le> length s"
proof -
  have "length (trim s) \<le> length (dropWhile is_space s)"
    unfolding trim_def by (metis length_dropWhile_le length_rev)
  also have "\<dots> \<le> length s" by (rule length_dropWhile_le)
  finally show ?thesis .
qed


subsection \<open>Truncation at the end of a sentence\<close>










lemma blank_lines_without_line_break:
  "10 \<notin> set s \<Longrightarrow> replace_all [Lit [10], Star is_space, Lit [10]] r s = s"
  by (induction s) simp_all




section \<open>Properties of the scoring\<close>

lemma hex_digit_inj: "a < 16 \<Longrightarrow> b < 16 \<Longrightarrow> hex_digit a = hex_digit b \<Longrightarrow> a = b"
  by (auto simp: hex_digit_def split: if_splits)

lemma div_mod_16_eq:
  fixes x y :: nat
  shows "x div 16 = y div 16 \<Longrightarrow> x mod 16 = y mod 16 \<Longrightarrow> x = y"
  by (metis div_mult_mod_eq)

lemma hex4_inj:
  assumes "c < 65536" "c' < 65536" "hex4 c = hex4 c'"
  shows "c = c'"
proof -
  have m: "hex_digit (x mod 16) = hex_digit (y mod 16) \<Longrightarrow> x mod 16 = y mod 16" for x y
    by (rule hex_digit_inj) simp_all
  from assms(3) have h: "hex_digit (c div 4096 mod 16) = hex_digit (c' div 4096 mod 16)"
    "hex_digit (c div 256 mod 16) = hex_digit (c' div 256 mod 16)"
    "hex_digit (c div 16 mod 16) = hex_digit (c' div 16 mod 16)"
    "hex_digit (c mod 16) = hex_digit (c' mod 16)"
    by (simp_all add: hex4_def)
  note e = m [OF h(1)] m [OF h(2)] m [OF h(3)] m [OF h(4)]
  from assms(1,2) have "c div 4096 < 16" "c' div 4096 < 16"
    by simp_all
  with e(1) have 1: "c div 4096 = c' div 4096" by simp
  have d: "x div 4096 = x div 256 div 16" "x div 256 = x div 16 div 16" for x :: nat
    by (simp_all add: div_mult2_eq [symmetric])
  from 1 e(2) have 2: "c div 256 = c' div 256"
    unfolding d(1) by (rule div_mod_16_eq)
  from 2 e(3) have 3: "c div 16 = c' div 16"
    unfolding d(2) by (rule div_mod_16_eq)
  from 3 e(4) show ?thesis by (rule div_mod_16_eq)
qed

lemma length_hex4 [simp]: "length (hex4 c) = 4"
  by (simp add: hex4_def)

lemma json_escape_shape:
  obtains (raw) "json_escape c = [c]" "c \<noteq> 34" "c \<noteq> 92" "\<not> is_lead_surrogate c"
  | (short) e where "json_escape c = [92, e]" "e \<noteq> 117"
      "c = (if e = 98 then 8 else if e = 116 then 9 else if e = 110 then 10
            else if e = 102 then 12 else if e = 114 then 13 else e)"
  | (long) "json_escape c = 92 # 117 # hex4 c" "c < 65536"
proof -
  consider "c = 8" | "c = 9" | "c = 10" | "c = 12" | "c = 13" | "c = 34" | "c = 92"
    | "c \<notin> {8, 9, 10, 12, 13, 34, 92}" "c < 32 \<or> is_lead_surrogate c \<or> is_trail_surrogate c"
    | "c \<notin> {8, 9, 10, 12, 13, 34, 92}" "\<not> (c < 32 \<or> is_lead_surrogate c \<or> is_trail_surrogate c)"
    by blast
  then show ?thesis
  proof cases
    case 8
    then have "json_escape c = 92 # 117 # hex4 c" by (simp add: json_escape_def)
    moreover from 8 have "c < 65536"
      by (auto simp: is_lead_surrogate_def is_trail_surrogate_def)
    ultimately show ?thesis by (rule long)
  next
    case 9
    then have "json_escape c = [c]" by (simp add: json_escape_def)
    with 9 show ?thesis by (intro raw) simp_all
  next
    case 1
    then show ?thesis by (intro short [of 98]) (simp_all add: json_escape_def)
  next
    case 2
    then show ?thesis by (intro short [of 116]) (simp_all add: json_escape_def)
  next
    case 3
    then show ?thesis by (intro short [of 110]) (simp_all add: json_escape_def)
  next
    case 4
    then show ?thesis by (intro short [of 102]) (simp_all add: json_escape_def)
  next
    case 5
    then show ?thesis by (intro short [of 114]) (simp_all add: json_escape_def)
  next
    case 6
    then show ?thesis by (intro short [of 34]) (simp_all add: json_escape_def)
  next
    case 7
    then show ?thesis by (intro short [of 92]) (simp_all add: json_escape_def)
  qed
qed

lemma json_escape_hd:
  "\<exists>h t. json_escape c = h # t \<and> h \<noteq> 34 \<and> \<not> is_lead_surrogate h"
  by (cases c rule: json_escape_shape) (simp_all add: is_lead_surrogate_def)

lemma json_escape_inj:
  assumes "json_escape c @ r = json_escape c' @ r'"
  shows "c = c' \<and> r = r'"
proof (cases c rule: json_escape_shape)
  case raw
  with assms show ?thesis
    by (cases c' rule: json_escape_shape) auto
next
  case (short e)
  note c = this
  show ?thesis
  proof (cases c' rule: json_escape_shape)
    case raw
    with c assms show ?thesis by auto
  next
    case (short e')
    with c assms have "e = e'" "r = r'" by auto
    with c(3) short(3) show ?thesis by simp
  next
    case long
    with c assms show ?thesis by auto
  qed
next
  case long
  note c = this
  show ?thesis
  proof (cases c' rule: json_escape_shape)
    case raw
    with c assms show ?thesis by auto
  next
    case (short e')
    with c assms show ?thesis by auto
  next
    case long
    with c assms have "hex4 c @ r = hex4 c' @ r'" by simp
    then have "hex4 c = hex4 c'" "r = r'" by simp_all
    with c(2) long(2) show ?thesis by (simp add: hex4_inj)
  qed
qed

lemma json_quote_units_hd:
  "y \<noteq> [] \<Longrightarrow> json_quote_units y @ t \<noteq> 34 # t'"
proof (cases y rule: json_quote_units.cases)
  case (2 c)
  with json_escape_hd [of c] show ?thesis by auto
next
  case (3 c d cs)
  with json_escape_hd [of c] show ?thesis
    by (auto simp: is_lead_surrogate_def)
qed simp

lemma json_escape_not_lead:
  "is_lead_surrogate c' \<Longrightarrow> json_escape c @ t \<noteq> c' # t'"
  using json_escape_hd [of c] by auto

lemma json_quote_units_unique:
  "json_quote_units x @ 34 # r = json_quote_units y @ 34 # r' \<Longrightarrow> x = y \<and> r = r'"
proof (induction x arbitrary: y rule: json_quote_units.induct)
  case 1
  then show ?case
    using json_quote_units_hd [of y "34 # r'" r] by (cases "y = []") auto
next
  case (2 c)
  show ?case
  proof (cases y rule: json_quote_units.cases)
    case 1
    with 2 json_quote_units_hd [of "[c]" "34 # r" r'] show ?thesis by auto
  next
    case (2 c')
    with \<open>json_quote_units [c] @ 34 # r = json_quote_units y @ 34 # r'\<close>
    have "json_escape c @ 34 # r = json_escape c' @ 34 # r'" by simp
    from json_escape_inj [OF this] 2 show ?thesis by simp
  next
    case (3 c' d' cs')
    show ?thesis
    proof (cases "is_lead_surrogate c' \<and> is_trail_surrogate d'")
      case True
      with 3 \<open>json_quote_units [c] @ 34 # r = json_quote_units y @ 34 # r'\<close>
      have "json_escape c @ 34 # r = c' # d' # json_quote_units cs' @ 34 # r'" by simp
      with True json_escape_not_lead show ?thesis by blast
    next
      case False
      with 3 \<open>json_quote_units [c] @ 34 # r = json_quote_units y @ 34 # r'\<close>
      have "json_escape c @ 34 # r =
          json_escape c' @ json_quote_units (d' # cs') @ 34 # r'" by simp
      from json_escape_inj [OF this]
      have "34 # r = json_quote_units (d' # cs') @ 34 # r'" by simp
      with json_quote_units_hd [of "d' # cs'" "34 # r'" r] show ?thesis by simp
    qed
  qed
next
  case (3 c d cs)
  note prem = \<open>json_quote_units (c # d # cs) @ 34 # r = json_quote_units y @ 34 # r'\<close>
  show ?case
  proof (cases "is_lead_surrogate c \<and> is_trail_surrogate d")
    case pair: True
    then have lhs: "json_quote_units (c # d # cs) = c # d # json_quote_units cs" by simp
    show ?thesis
    proof (cases y rule: json_quote_units.cases)
      case 1
      with prem lhs pair show ?thesis by (auto simp: is_lead_surrogate_def)
    next
      case (2 c')
      with prem lhs have "json_escape c' @ 34 # r' = c # d # json_quote_units cs @ 34 # r"
        by simp
      with pair json_escape_not_lead show ?thesis by blast
    next
      case (3 c' d' cs')
      show ?thesis
      proof (cases "is_lead_surrogate c' \<and> is_trail_surrogate d'")
        case True
        with 3 prem lhs have "c = c'" "d = d'"
          "json_quote_units cs @ 34 # r = json_quote_units cs' @ 34 # r'"
          by simp_all
        with "3.IH"(1) [OF pair, of cs'] 3 show ?thesis by simp
      next
        case False
        with 3 prem lhs
        have "json_escape c' @ json_quote_units (d' # cs') @ 34 # r' =
            c # d # json_quote_units cs @ 34 # r"
          by simp
        with pair json_escape_not_lead show ?thesis by blast
      qed
    qed
  next
    case single: False
    then have lhs: "json_quote_units (c # d # cs) = json_escape c @ json_quote_units (d # cs)"
      by auto
    show ?thesis
    proof (cases y rule: json_quote_units.cases)
      case 1
      with prem json_quote_units_hd [of "c # d # cs" "34 # r" r'] show ?thesis by auto
    next
      case (2 c')
      with prem lhs
      have "json_escape c @ json_quote_units (d # cs) @ 34 # r = json_escape c' @ 34 # r'"
        by simp
      from json_escape_inj [OF this]
      have "json_quote_units (d # cs) @ 34 # r = 34 # r'" by simp
      with json_quote_units_hd [of "d # cs" "34 # r" r'] show ?thesis by simp
    next
      case (3 c' d' cs')
      show ?thesis
      proof (cases "is_lead_surrogate c' \<and> is_trail_surrogate d'")
        case True
        with 3 prem lhs
        have "json_escape c @ json_quote_units (d # cs) @ 34 # r =
            c' # d' # json_quote_units cs' @ 34 # r'"
          by simp
        with True json_escape_not_lead show ?thesis by blast
      next
        case False
        with 3 prem lhs
        have "json_escape c @ json_quote_units (d # cs) @ 34 # r =
            json_escape c' @ json_quote_units (d' # cs') @ 34 # r'"
          by simp
        from json_escape_inj [OF this]
        have "c = c'" "json_quote_units (d # cs) @ 34 # r = json_quote_units (d' # cs') @ 34 # r'"
          by simp_all
        with "3.IH"(2) [OF single, of "d' # cs'"] 3 show ?thesis by simp
      qed
    qed
  qed
qed

lemma json_quote_unique:
  assumes "json_quote x @ r = json_quote y @ r'"
  shows "x = y \<and> r = r'"
proof -
  from assms have "json_quote_units x @ 34 # r = json_quote_units y @ 34 # r'"
    by (simp add: json_quote_def)
  then show ?thesis by (rule json_quote_units_unique)
qed

lemma json_quote_hd: "json_quote x @ r \<noteq> 93 # r'"
  by (simp add: json_quote_def)

lemma json_elements_unique:
  "json_elements xs @ 93 # r = json_elements ys @ 93 # r' \<Longrightarrow> xs = ys"
proof (induction xs arbitrary: ys rule: json_elements.induct)
  case 1
  then show ?case
    using json_quote_hd by (cases ys rule: json_elements.cases) (auto simp: json_quote_def)
next
  case (2 x)
  show ?case
  proof (cases ys rule: json_elements.cases)
    case 1
    with 2 show ?thesis by (simp add: json_quote_def)
  next
    case (2 y)
    with \<open>json_elements [x] @ 93 # r = json_elements ys @ 93 # r'\<close>
    have "json_quote x @ 93 # r = json_quote y @ 93 # r'" by simp
    from json_quote_unique [OF this] 2 show ?thesis by simp
  next
    case (3 y z zs)
    with \<open>json_elements [x] @ 93 # r = json_elements ys @ 93 # r'\<close>
    have "json_quote x @ 93 # r = json_quote y @ 44 # json_elements (z # zs) @ 93 # r'" by simp
    from json_quote_unique [OF this] show ?thesis by simp
  qed
next
  case (3 x x' xs)
  note prem = \<open>json_elements (x # x' # xs) @ 93 # r = json_elements ys @ 93 # r'\<close>
  show ?case
  proof (cases ys rule: json_elements.cases)
    case 1
    with prem show ?thesis by (simp add: json_quote_def)
  next
    case (2 y)
    with prem
    have "json_quote x @ 44 # json_elements (x' # xs) @ 93 # r = json_quote y @ 93 # r'" by simp
    from json_quote_unique [OF this] show ?thesis by simp
  next
    case (3 y z zs)
    with prem
    have "json_quote x @ 44 # json_elements (x' # xs) @ 93 # r =
        json_quote y @ 44 # json_elements (z # zs) @ 93 # r'" by simp
    from json_quote_unique [OF this]
    have "x = y" "json_elements (x' # xs) @ 93 # r = json_elements (z # zs) @ 93 # r'"
      by simp_all
    with "3.IH" [of "z # zs"] 3 show ?thesis by simp
  qed
qed

lemma JSON_stringify_inj: "JSON_stringify xs = JSON_stringify ys \<longleftrightarrow> xs = ys"
proof
  assume "JSON_stringify xs = JSON_stringify ys"
  then have "json_elements xs @ 93 # [] = json_elements ys @ 93 # []"
    by (simp add: JSON_stringify_def)
  then show "xs = ys" by (rule json_elements_unique)
qed simp

lemma sort_eq_iff_mset:
  fixes xs ys :: "'a :: linorder list"
  shows "sort xs = sort ys \<longleftrightarrow> mset xs = mset ys"
proof
  assume "sort xs = sort ys"
  then have "mset (sort xs) = mset (sort ys)" by simp
  then show "mset xs = mset ys" by simp
next
  assume "mset xs = mset ys"
  then have "mset (sort ys) = mset xs" by simp
  then show "sort xs = sort ys"
    by (rule properties_for_sort) simp
qed

lemma isCorrect_iff: "isCorrect stored selected \<longleftrightarrow> mset selected = mset stored"
  by (auto simp: isCorrect_def JSON_stringify_inj sort_eq_iff_mset)

text \<open>
  C9. A submission is judged correct exactly when it is a permutation of the stored
  labels (the same labels, each as often). So every reordering of the stored list is
  correct, and a list of another length or with another set of labels is not.
\<close>

theorem scoring_is_order_independent:
  "(isCorrect stored selected \<longleftrightarrow> mset selected = mset stored) \<and>
   (length selected \<noteq> length stored \<longrightarrow> \<not> isCorrect stored selected) \<and>
   (set selected \<noteq> set stored \<longrightarrow> \<not> isCorrect stored selected)"
proof (intro conjI impI)
  show "isCorrect stored selected \<longleftrightarrow> mset selected = mset stored"
    by (rule isCorrect_iff)
  show "\<not> isCorrect stored selected" if "length selected \<noteq> length stored"
    using that unfolding isCorrect_iff by (metis size_mset)
  show "\<not> isCorrect stored selected" if "set selected \<noteq> set stored"
    using that unfolding isCorrect_iff by (metis set_mset_mset)
qed

theorem scoring_is_order_independent_witness:
  "isCorrect [ascii ''A'', ascii ''B''] [ascii ''B'', ascii ''A''] \<and>
   \<not> isCorrect [ascii ''A'', ascii ''B''] [ascii ''A''] \<and>
   \<not> isCorrect [ascii ''A'', ascii ''B''] [ascii ''A'', ascii ''C'']"
  using scoring_is_order_independent [of "[ascii ''A'', ascii ''B'']" "[ascii ''B'', ascii ''A'']"]
    scoring_is_order_independent [of "[ascii ''A'', ascii ''B'']" "[ascii ''A'']"]
    scoring_is_order_independent [of "[ascii ''A'', ascii ''B'']" "[ascii ''A'', ascii ''C'']"]
  by (simp add: ascii_def)

subsection \<open>No line break survives the normalization\<close>

lemma match_here_plus:
  "match_here [Plus P] s =
     (if takeWhile P s = [] then None else Some (length (takeWhile P s)))"
proof (cases "length (takeWhile P s)")
  case 0
  then show ?thesis by simp
next
  case (Suc n)
  then have "rev [1 ..< Suc (length (takeWhile P s))] = Suc n # rev [1 ..< Suc n]"
    by simp
  with Suc show ?thesis by auto
qed

lemma collapse_only_spaces:
  "c \<in> set (replace_all [Plus is_space] [32] s) \<Longrightarrow> is_space c \<Longrightarrow> c = 32"
proof (induction "[Plus is_space]" "[32] :: jsstring" s rule: replace_all.induct)
  case 1
  then show ?case by (simp add: match_here_plus)
next
  case (2 d ds)
  show ?case
  proof (cases "match_here [Plus is_space] (d # ds)")
    case None
    then have "\<not> is_space d" by (simp add: match_here_plus split: if_splits)
    with None 2 show ?thesis by auto
  next
    case (Some k)
    with 2 show ?thesis by (cases k) auto
  qed
qed

lemma set_trim: "set (trim s) \<subseteq> set s"
  unfolding trim_def
  by (metis set_dropWhileD set_rev subsetI)

lemma normalize_whitespace_no_line_break: "10 \<notin> set (normalize_whitespace s)"
proof -
  let ?c = "replace_all [Plus is_space] [32] s"
  have "10 \<notin> set ?c"
    using collapse_only_spaces [of 10 s] by (auto simp: is_space_def)
  then have "replace_all [Lit [10], Star is_space, Lit [10]] [10] ?c = ?c"
    by (rule blank_lines_without_line_break)
  with \<open>10 \<notin> set ?c\<close> set_trim [of ?c] show ?thesis
    by (auto simp: normalize_whitespace_def)
qed

end
